theory Spec2Isabelle
  imports Main "HOL-Library.Word"
begin

unbundle bit_operations_syntax

section \<open>Faults and raw buffers\<close>

text \<open>
  The C++ sources abort on a failed \<open>ASSERT\<close> and on \<open>UNREACHABLE()\<close>, and they index raw
  pointers. Each of these is a branch of the model: a computation returns
  \<open>fault + 'a\<close>, with \<open>Inl\<close> for the abort. A buffer is the list of the elements that
  are really allocated behind the pointer; an access outside of it is \<open>OutOfBounds\<close>.
  Indices and lengths (\<open>intptr_t\<close>, \<open>word\<close>) are \<open>int\<close>: they are bounded by buffer sizes
  and never wrap in the code modelled here.
\<close>

datatype fault = AssertFailed | Unreachable | OutOfBounds | NullDereference

definition at :: "'a list \<Rightarrow> int \<Rightarrow> fault + 'a" where
  "at xs i = (if 0 \<le> i \<and> i < int (length xs) then Inr (xs ! nat i) else Inl OutOfBounds)"

definition put :: "'a list \<Rightarrow> int \<Rightarrow> 'a \<Rightarrow> fault + 'a list" where
  "put xs i v = (if 0 \<le> i \<and> i < int (length xs) then Inr (xs[nat i := v]) else Inl OutOfBounds)"

section \<open>unicode.cc: tables\<close>

text \<open>
  The table \<open>Utf8::kTrailBytes\<close>, sixteen entries to a line: line \<open>k\<close> holds the entries
  of the bytes \<open>16 * k\<close> to \<open>16 * k + 15\<close>.
\<close>

definition kTrailBytes :: "int list" where
  "kTrailBytes =
     [1, 1, 1, 1, 1, 1, 1, 1, 1, 1, 1, 1, 1, 1, 1, 1]
     @ [1, 1, 1, 1, 1, 1, 1, 1, 1, 1, 1, 1, 1, 1, 1, 1]
     @ [1, 1, 1, 1, 1, 1, 1, 1, 1, 1, 1, 1, 1, 1, 1, 1]
     @ [1, 1, 1, 1, 1, 1, 1, 1, 1, 1, 1, 1, 1, 1, 1, 1]
     @ [1, 1, 1, 1, 1, 1, 1, 1, 1, 1, 1, 1, 1, 1, 1, 1]
     @ [1, 1, 1, 1, 1, 1, 1, 1, 1, 1, 1, 1, 1, 1, 1, 1]
     @ [1, 1, 1, 1, 1, 1, 1, 1, 1, 1, 1, 1, 1, 1, 1, 1]
     @ [1, 1, 1, 1, 1, 1, 1, 1, 1, 1, 1, 1, 1, 1, 1, 1]
     @ [0, 0, 0, 0, 0, 0, 0, 0, 0, 0, 0, 0, 0, 0, 0, 0]
     @ [0, 0, 0, 0, 0, 0, 0, 0, 0, 0, 0, 0, 0, 0, 0, 0]
     @ [0, 0, 0, 0, 0, 0, 0, 0, 0, 0, 0, 0, 0, 0, 0, 0]
     @ [0, 0, 0, 0, 0, 0, 0, 0, 0, 0, 0, 0, 0, 0, 0, 0]
     @ [2, 2, 2, 2, 2, 2, 2, 2, 2, 2, 2, 2, 2, 2, 2, 2]
     @ [2, 2, 2, 2, 2, 2, 2, 2, 2, 2, 2, 2, 2, 2, 2, 2]
     @ [3, 3, 3, 3, 3, 3, 3, 3, 3, 3, 3, 3, 3, 3, 3, 3]
     @ [4, 4, 4, 4, 4, 4, 4, 4, 5, 5, 5, 5, 6, 6, 0, 0]"

definition kMagicBits :: "32 word list" where
  "kMagicBits = [0, 0x00000000, 0x00003080, 0x000E2080, 0x03C82080, 0xFA082080, 0x82082080]"

definition kOverlongMinimum :: "32 word list" where
  "kOverlongMinimum = [0, 0x0, 0x80, 0x800, 0x10000, 0xFFFFFFFF, 0xFFFFFFFF]"

section \<open>unicode.h: constants and inline helpers\<close>

text \<open>
  Modelled from the spec: the header \<open>src/vm/unicode.h\<close> is not part of the sources at
  hand. Its constants are the breakpoints the spec gives for \<open>Utf8Length\<close> (U+007F, U+07FF,
  U+FFFF, U+10FFFF) and the largest code unit; its predicates are the checks the spec
  describes for the decoder (the \<open>10xxxxxx\<close> pattern of a trailing byte, the valid Unicode
  range, the minimum value that needs that many bytes, a lead byte of a four-byte
  sequence as the start of a supplementary code point) and the offset of the lead
  surrogate (0xD800 less the high ten bits of 0x10000, so that the offset plus the high
  bits of a supplementary code point is a lead surrogate).
\<close>

definition kMaxOneByteChar :: "32 word" where "kMaxOneByteChar = 0x7F"
definition kMaxTwoByteChar :: "32 word" where "kMaxTwoByteChar = 0x7FF"
definition kMaxThreeByteChar :: "32 word" where "kMaxThreeByteChar = 0xFFFF"
definition kMaxFourByteChar :: "32 word" where "kMaxFourByteChar = 0x10FFFF"
definition kMaxCodeUnit :: "32 word" where "kMaxCodeUnit = 0xFFFF"
definition kLeadSurrogateOffset :: "32 word" where
  "kLeadSurrogateOffset = 0xD800 - drop_bit 10 0x10000"

definition IsTrailByte :: "8 word \<Rightarrow> bool" where
  "IsTrailByte code_unit = (code_unit AND 0xC0 = 0x80)"

definition IsOutOfRange :: "32 word \<Rightarrow> bool" where
  "IsOutOfRange code_point = (code_point > 0x10FFFF)"

definition IsNonShortestForm :: "32 word \<Rightarrow> int \<Rightarrow> fault + bool" where
  "IsNonShortestForm code_point num_bytes =
     (case at kOverlongMinimum num_bytes of
        Inl e \<Rightarrow> Inl e
      | Inr m \<Rightarrow> Inr (code_point < m))"

definition IsSupplementarySequenceStart :: "8 word \<Rightarrow> bool" where
  "IsSupplementarySequenceStart code_unit = (code_unit \<ge> 0xF0)"

section \<open>unicode.cc: Utf8::Decode\<close>

text \<open>
  The \<open>for\<close> loop of \<open>Utf8::Decode\<close>. \<open>Inr None\<close> is the early return of the \<open>else\<close> branch
  (\<open>*dst = -1; return 0\<close>); \<open>Inr (Some (i, ch, is_malformed))\<close> is the state at loop exit.
\<close>

function Decode_loop ::
  "8 word list \<Rightarrow> int \<Rightarrow> int \<Rightarrow> int \<Rightarrow> 32 word \<Rightarrow> bool \<Rightarrow> fault + (int \<times> 32 word \<times> bool) option"
where
  "Decode_loop utf8_array array_len num_trail_bytes i ch is_malformed =
     (if i < num_trail_bytes then
        (if i < array_len then
           (case at utf8_array i of
              Inl e \<Rightarrow> Inl e
            | Inr code_unit \<Rightarrow>
                Decode_loop utf8_array array_len num_trail_bytes (i + 1)
                  (push_bit 6 ch + ucast code_unit)
                  (is_malformed \<or> \<not> IsTrailByte code_unit))
         else Inr None)
      else Inr (Some (i, ch, is_malformed)))"
  by pat_completeness auto
termination
  by (relation "measure (\<lambda>(a, l, n, i, c, m). nat (n - i))") auto

text \<open>
  \<open>Utf8::Decode\<close> returns the number of bytes consumed together with the value stored
  through \<open>dst\<close> (an \<open>int32_t\<close>; the sentinel \<open>-1\<close> is the word \<open>0xFFFFFFFF\<close>). The
  conjunction of the final test is evaluated from left to right, as \<open>&&\<close> does:
  \<open>IsNonShortestForm\<close>, which indexes \<open>kOverlongMinimum\<close>, is reached only when the three
  tests before it hold.
\<close>

definition Decode :: "8 word list \<Rightarrow> int \<Rightarrow> fault + (int \<times> 32 word)" where
  "Decode utf8_array array_len =
     (case at utf8_array 0 of
        Inl e \<Rightarrow> Inl e
      | Inr b0 \<Rightarrow>
          let ch = ucast b0 AND (0xFF :: 32 word) in
          if ch \<ge> 0x80 then
            (case at kTrailBytes (uint ch) of
               Inl e \<Rightarrow> Inl e
             | Inr num_trail_bytes \<Rightarrow>
                 (case Decode_loop utf8_array array_len num_trail_bytes 1 ch False of
                    Inl e \<Rightarrow> Inl e
                  | Inr None \<Rightarrow> Inr (0, -1)
                  | Inr (Some (i, ch1, is_malformed)) \<Rightarrow>
                      (case at kMagicBits num_trail_bytes of
                         Inl e \<Rightarrow> Inl e
                       | Inr magic \<Rightarrow>
                           let ch2 = ch1 - magic in
                           if is_malformed = False \<and> i = num_trail_bytes
                              \<and> \<not> IsOutOfRange ch2
                           then
                             (case IsNonShortestForm ch2 i of
                                Inl e \<Rightarrow> Inl e
                              | Inr non_shortest \<Rightarrow>
                                  if non_shortest then Inr (0, -1) else Inr (i, ch2))
                           else Inr (0, -1))))
          else Inr (1, ch))"

section \<open>unicode.cc: Utf8::Length and Utf8::Encode for one code point\<close>

text \<open>
  A code point is an \<open>int32\<close>: a 32-bit word compared as a signed number (\<open>\<le>s\<close>) and
  shifted arithmetically (\<open>signed_drop_bit\<close>). The \<open>ASSERT\<close> on the four-byte range is
  the fault \<open>AssertFailed\<close>.
\<close>

definition Length :: "32 word \<Rightarrow> fault + int" where
  "Length ch =
     (if ch \<le>s kMaxOneByteChar then Inr 1
      else if ch \<le>s kMaxTwoByteChar then Inr 2
      else if ch \<le>s kMaxThreeByteChar then Inr 3
      else if \<not> ch \<le>s kMaxFourByteChar then Inl AssertFailed
      else Inr 4)"

text \<open>
  \<open>Utf8::Encode(ch, dst)\<close> with \<open>dst\<close> the address of element \<open>p\<close> of a byte buffer, so
  that \<open>dst[k]\<close> is element \<open>p + k\<close>. A store into a \<open>char\<close> keeps the low eight bits
  (\<open>ucast\<close>). The result is the buffer after the stores and the returned byte count.
\<close>

definition kMask :: "32 word" where
  "kMask = NOT (push_bit 6 1)"

definition Encode :: "32 word \<Rightarrow> 8 word list \<Rightarrow> int \<Rightarrow> fault + (8 word list \<times> int)" where
  "Encode ch dst p =
     (if ch \<le>s kMaxOneByteChar then
        (case put dst p (ucast ch) of
           Inl e \<Rightarrow> Inl e
         | Inr d0 \<Rightarrow> Inr (d0, 1))
      else if ch \<le>s kMaxTwoByteChar then
        (case put dst p (ucast (0xC0 OR signed_drop_bit 6 ch)) of
           Inl e \<Rightarrow> Inl e
         | Inr d0 \<Rightarrow>
            (case put d0 (p + 1) (ucast (0x80 OR (ch AND kMask))) of
               Inl e \<Rightarrow> Inl e
             | Inr d1 \<Rightarrow> Inr (d1, 2)))
      else if ch \<le>s kMaxThreeByteChar then
        (case put dst p (ucast (0xE0 OR signed_drop_bit 12 ch)) of
           Inl e \<Rightarrow> Inl e
         | Inr d0 \<Rightarrow>
            (case put d0 (p + 1) (ucast (0x80 OR (signed_drop_bit 6 ch AND kMask))) of
               Inl e \<Rightarrow> Inl e
             | Inr d1 \<Rightarrow>
                (case put d1 (p + 2) (ucast (0x80 OR (ch AND kMask))) of
                   Inl e \<Rightarrow> Inl e
                 | Inr d2 \<Rightarrow> Inr (d2, 3))))
      else if \<not> ch \<le>s kMaxFourByteChar then Inl AssertFailed
      else
        (case put dst p (ucast (0xF0 OR signed_drop_bit 18 ch)) of
           Inl e \<Rightarrow> Inl e
         | Inr d0 \<Rightarrow>
            (case put d0 (p + 1) (ucast (0x80 OR (signed_drop_bit 12 ch AND kMask))) of
               Inl e \<Rightarrow> Inl e
             | Inr d1 \<Rightarrow>
                (case put d1 (p + 2) (ucast (0x80 OR (signed_drop_bit 6 ch AND kMask))) of
                   Inl e \<Rightarrow> Inl e
                 | Inr d2 \<Rightarrow>
                    (case put d2 (p + 3) (ucast (0x80 OR (ch AND kMask))) of
                       Inl e \<Rightarrow> Inl e
                     | Inr d3 \<Rightarrow> Inr (d3, 4))))))"

section \<open>unicode.h: Utf16 helpers\<close>

text \<open>
  Modelled from the spec: \<open>Utf16::Length\<close>, \<open>Utf16::IsLeadSurrogate\<close>,
  \<open>Utf16::IsTrailSurrogate\<close> and \<open>Utf16::Decode\<close> are declared in the missing header
  \<open>src/vm/unicode.h\<close>. The spec gives the code-unit length of a code point (1, or 2 when it
  is supplementary), the surrogate ranges (a lead surrogate lies in [0xD800, 0xDBFF], a
  trail surrogate in [0xDC00, 0xDFFF]: the bits above the low ten are those of 0xD800 or
  of 0xDC00), and the pair encoding that \<open>Utf16::Decode\<close> inverts (lead = offset plus the
  high 10 bits, trail = 0xDC00 plus the low 10 bits).
\<close>

definition Utf16_Length :: "32 word \<Rightarrow> int" where
  "Utf16_Length ch = (if ch \<le>s kMaxCodeUnit then 1 else 2)"

definition IsLeadSurrogate :: "32 word \<Rightarrow> bool" where
  "IsLeadSurrogate ch = (ch AND 0xFFFFFC00 = 0xD800)"

definition IsTrailSurrogate :: "32 word \<Rightarrow> bool" where
  "IsTrailSurrogate ch = (ch AND 0xFFFFFC00 = 0xDC00)"

definition Utf16_Decode :: "32 word \<Rightarrow> 32 word \<Rightarrow> 32 word" where
  "Utf16_Decode lead trail = 0x10000 + push_bit 10 (lead AND 0x3FF) + (trail AND 0x3FF)"

text \<open>\<open>Utf16::Encode(codepoint, dst)\<close> of unicode.cc, with \<open>dst\<close> the address of element \<open>p\<close>.\<close>

definition Utf16_Encode :: "32 word \<Rightarrow> 16 word list \<Rightarrow> int \<Rightarrow> fault + 16 word list" where
  "Utf16_Encode codepoint dst p =
     (if \<not> (kMaxCodeUnit <s codepoint) then Inl AssertFailed
      else
        case put dst p (ucast (kLeadSurrogateOffset + signed_drop_bit 10 codepoint)) of
          Inl e \<Rightarrow> Inl e
        | Inr d0 \<Rightarrow> put d0 (p + 1) (ucast (0xDC00 + (codepoint AND 0x3FF))))"

section \<open>unicode.cc: CodePointIterator\<close>

text \<open>
  Modelled from the spec: \<open>TwoByteString\<close> (\<open>src/vm/object.h\<close>) is a fixed-length sequence of
  16-bit code units; \<open>get_code_unit\<close> reads one of them, and an index outside of the
  string is a fault.
\<close>

definition get_code_unit :: "16 word list \<Rightarrow> int \<Rightarrow> fault + 16 word" where
  "get_code_unit str i = at str i"

text \<open>
  The members \<open>str\<close>, \<open>ch\<close>, \<open>index\<close> and \<open>end\<close> of the class (written with a trailing
  underscore in the source) are the fields \<open>it_str\<close>, \<open>it_ch\<close>, \<open>it_index\<close>, \<open>it_end\<close>.
\<close>

record CodePointIterator =
  it_str :: "16 word list"
  it_ch :: "32 word"
  it_index :: int
  it_end :: int

definition CodePointIterator_init :: "16 word list \<Rightarrow> CodePointIterator" where
  "CodePointIterator_init str = \<lparr>it_str = str, it_ch = 0, it_index = -1, it_end = int (length str)\<rparr>"

definition Current :: "CodePointIterator \<Rightarrow> 32 word" where
  "Current it = it_ch it"

definition Next :: "CodePointIterator \<Rightarrow> fault + (bool \<times> CodePointIterator)" where
  "Next it =
     (if \<not> (it_index it \<ge> -1) then Inl AssertFailed
      else
        let len = Utf16_Length (it_ch it) in
        if it_index it < it_end it - len then
          (let it1 = it\<lparr>it_index := it_index it + len\<rparr> in
           case get_code_unit (it_str it1) (it_index it1) of
             Inl e \<Rightarrow> Inl e
           | Inr cu \<Rightarrow>
               let it2 = it1\<lparr>it_ch := ucast cu\<rparr> in
               if IsLeadSurrogate (it_ch it2) \<and> it_index it2 < it_end it2 - 1 then
                 (case get_code_unit (it_str it2) (it_index it2 + 1) of
                    Inl e \<Rightarrow> Inl e
                  | Inr cu2 \<Rightarrow>
                      let ch2 = ucast cu2 in
                      if IsTrailSurrogate ch2
                      then Inr (True, it2\<lparr>it_ch := Utf16_Decode (it_ch it2) ch2\<rparr>)
                      else Inr (True, it2))
               else Inr (True, it2))
        else Inr (False, it\<lparr>it_index := it_end it\<rparr>))"

text \<open>
  The iteration idiom of the source, \<open>while (it.Next()) { ch = it.Current(); ... }\<close>, with
  the code points collected in the order in which they are produced.
\<close>

function code_points :: "CodePointIterator \<Rightarrow> fault + 32 word list" where
  "code_points it =
     (case Next it of
        Inl e \<Rightarrow> Inl e
      | Inr (has_next, it') \<Rightarrow>
          if has_next then
            (case code_points it' of Inl e \<Rightarrow> Inl e | Inr cs \<Rightarrow> Inr (Current it' # cs))
          else Inr [])"
  by pat_completeness auto
termination
proof (relation "measure (\<lambda>it. nat (it_end it - it_index it))")
  show "wf (measure (\<lambda>it. nat (it_end it - it_index it)))"
    by simp
next
  fix it :: CodePointIterator and r has_next it'
  assume "Next it = Inr r" and "(has_next, it') = r" and "has_next"
  then have "Next it = Inr (True, it')"
    by auto
  then have "it_end it' = it_end it \<and> it_index it < it_index it' \<and> it_index it' < it_end it"
    by (auto simp: Next_def Let_def Utf16_Length_def split: if_splits sum.splits)
  then show "(it', it) \<in> measure (\<lambda>it. nat (it_end it - it_index it))"
    by simp
qed

section \<open>unicode.cc: Utf8::Encode for a string\<close>

text \<open>
  The \<open>while (it.Next())\<close> loop of \<open>Utf8::Encode(src, dst, len)\<close>: the state is the
  iterator, the destination buffer and \<open>pos\<close>; the result is the buffer and the returned
  \<open>pos\<close>. The iterator's index grows with every successful \<open>Next\<close>, which bounds the loop.
\<close>

function Encode_loop ::
  "CodePointIterator \<Rightarrow> 8 word list \<Rightarrow> int \<Rightarrow> int \<Rightarrow> fault + (8 word list \<times> int)"
where
  "Encode_loop it dst len pos =
     (case Next it of
        Inl e \<Rightarrow> Inl e
      | Inr (has_next, it') \<Rightarrow>
          if has_next then
            (let ch = Current it' in
             case Length ch of
               Inl e \<Rightarrow> Inl e
             | Inr num_bytes \<Rightarrow>
                 if pos + num_bytes > len then Inr (dst, pos)
                 else
                   (case Encode ch dst pos of
                      Inl e \<Rightarrow> Inl e
                    | Inr (dst', n) \<Rightarrow> Encode_loop it' dst' len (pos + num_bytes)))
          else Inr (dst, pos))"
  by pat_completeness auto
termination
proof (relation "measure (\<lambda>(it, dst, len, pos). nat (it_end it - it_index it))")
  show "wf (measure (\<lambda>(it, dst, len, pos). nat (it_end it - it_index it)))"
    by simp
next
  fix it :: CodePointIterator and dst :: "8 word list" and len pos :: int
    and r has_next it' ch num_bytes q dst' n
  assume "Next it = Inr r" and "(has_next, it') = r" and "has_next"
  then have "Next it = Inr (True, it')"
    by auto
  then have "it_end it' = it_end it \<and> it_index it < it_index it' \<and> it_index it' < it_end it"
    by (auto simp: Next_def Let_def Utf16_Length_def split: if_splits sum.splits)
  then show "((it', dst', len, pos + num_bytes), (it, dst, len, pos))
      \<in> measure (\<lambda>(it, dst, len, pos). nat (it_end it - it_index it))"
    by simp
qed

definition Encode_str :: "16 word list \<Rightarrow> 8 word list \<Rightarrow> int \<Rightarrow> fault + (8 word list \<times> int)" where
  "Encode_str src dst len = Encode_loop (CodePointIterator_init src) dst len 0"

text \<open>
  The bytes \<open>Utf8::Encode(ch, dst)\<close> stores for one code point: the prefix of a four-byte
  buffer that the call has written.
\<close>

definition encoded :: "32 word \<Rightarrow> 8 word list" where
  "encoded ch = (case Encode ch [0, 0, 0, 0] 0 of Inl e \<Rightarrow> [] | Inr (buf, n) \<Rightarrow> take (nat n) buf)"

text \<open>
  The code points that fit, in the words of the claim on \<open>Utf8::Encode(src, dst, len)\<close>:
  starting at byte position \<open>pos\<close>, code points are taken in order up to the first one
  whose encoding would not fit entirely below \<open>len\<close>.
\<close>

fun fitting :: "32 word list \<Rightarrow> int \<Rightarrow> int \<Rightarrow> 32 word list" where
  "fitting [] pos len = []"
| "fitting (c # cs) pos len =
     (if pos + int (length (encoded c)) > len then []
      else c # fitting cs (pos + int (length (encoded c))) len)"

section \<open>unicode.cc: Utf8::DecodeToUTF16\<close>

text \<open>
  The \<open>for\<close> loop of \<open>Utf8::DecodeToUTF16\<close> together with the test that follows it. The
  pointer \<open>&utf8_array[i]\<close> is the buffer from element \<open>i\<close> on. The result is the returned
  flag and the destination buffer. The counter \<open>j\<close> grows in every round, which bounds
  the loop.
\<close>

function DecodeToUTF16_loop ::
  "8 word list \<Rightarrow> int \<Rightarrow> 16 word list \<Rightarrow> int \<Rightarrow> int \<Rightarrow> int \<Rightarrow> fault + (bool \<times> 16 word list)"
where
  "DecodeToUTF16_loop utf8_array array_len dst len i j =
     (if i < array_len \<and> j < len then
        (case at utf8_array i of
           Inl e \<Rightarrow> Inl e
         | Inr lead \<Rightarrow>
             (let is_supplementary = IsSupplementarySequenceStart lead in
              (case Decode (drop (nat i) utf8_array) (array_len - i) of
                 Inl e \<Rightarrow> Inl e
               | Inr (num_bytes, ch) \<Rightarrow>
                   if ch = -1 then Inr (False, dst)
                   else if is_supplementary then
                     (case Utf16_Encode ch dst j of
                        Inl e \<Rightarrow> Inl e
                      | Inr dst' \<Rightarrow>
                          DecodeToUTF16_loop utf8_array array_len dst' len
                            (i + num_bytes) ((j + 1) + 1))
                   else
                     (case put dst j (ucast ch) of
                        Inl e \<Rightarrow> Inl e
                      | Inr dst' \<Rightarrow>
                          DecodeToUTF16_loop utf8_array array_len dst' len
                            (i + num_bytes) (j + 1)))))
      else if i < array_len \<and> j = len then Inr (False, dst)
      else Inr (True, dst))"
  by pat_completeness auto
termination
  by (relation "measure (\<lambda>(a, al, d, len, i, j). nat (len - j))") auto

definition DecodeToUTF16 ::
  "8 word list \<Rightarrow> int \<Rightarrow> 16 word list \<Rightarrow> int \<Rightarrow> fault + (bool \<times> 16 word list)" where
  "DecodeToUTF16 utf8_array array_len dst len = DecodeToUTF16_loop utf8_array array_len dst len 0 0"

section \<open>frame.h: Stack and Frame\<close>

text \<open>
  Modelled from the spec: the class \<open>Stack\<close> (\<open>src/vm/object.h\<close>) is an array of word-sized
  slots that exposes address-by-index (\<open>Pointer\<close>) and a top-of-stack index (\<open>top\<close>).
  An address counts slots; slot \<open>i\<close> of the stack lies at address \<open>base + i\<close>, and \<open>NULL\<close>
  is the address 0. A slot holds a word that frame.h reinterprets as an address.
  Dereferencing \<open>NULL\<close> or an address outside of the stack is a fault.
\<close>

type_synonym addr = int

definition NULL :: addr where
  "NULL = 0"

record Stack =
  base :: addr
  slots :: "addr list"
  top :: int

definition Pointer :: "Stack \<Rightarrow> int \<Rightarrow> addr" where
  "Pointer stack i = base stack + i"

definition deref :: "Stack \<Rightarrow> addr \<Rightarrow> fault + addr" where
  "deref stack p =
     (if p = NULL then Inl NullDereference else at (slots stack) (p - base stack))"

text \<open>
  The members \<open>stack\<close>, \<open>frame_pointer\<close> and \<open>size\<close> of the class \<open>Frame\<close> (written with a
  trailing underscore in the source) are the fields \<open>fr_stack\<close>, \<open>fr_frame_pointer\<close>,
  \<open>fr_size\<close>.
\<close>

record Frame =
  fr_stack :: Stack
  fr_frame_pointer :: addr
  fr_size :: int

definition FirstFrame :: "Stack \<Rightarrow> fault + Frame" where
  "FirstFrame stack =
     (let top_pointer = Pointer stack (top stack) in
      case deref stack top_pointer of
        Inl e \<Rightarrow> Inl e
      | Inr frame_pointer \<Rightarrow>
          Inr \<lparr>fr_stack = stack, fr_frame_pointer = frame_pointer,
               fr_size = top_pointer - frame_pointer\<rparr>)"

definition IsFirstFrame :: "Frame \<Rightarrow> bool" where
  "IsFirstFrame f = (fr_size f = 2)"

definition PreviousFramePointer :: "Frame \<Rightarrow> fault + addr" where
  "PreviousFramePointer f = deref (fr_stack f) (fr_frame_pointer f)"

definition IsLastFrame :: "Frame \<Rightarrow> fault + bool" where
  "IsLastFrame f =
     (case PreviousFramePointer f of
        Inl e \<Rightarrow> Inl e
      | Inr previous_frame_pointer \<Rightarrow>
          (case deref (fr_stack f) previous_frame_pointer of
             Inl e \<Rightarrow> Inl e
           | Inr v \<Rightarrow> Inr (v = NULL)))"

definition Previous :: "Frame \<Rightarrow> fault + Frame" where
  "Previous f =
     (case PreviousFramePointer f of
        Inl e \<Rightarrow> Inl e
      | Inr previous_frame_pointer \<Rightarrow>
          (case deref (fr_stack f) previous_frame_pointer of
             Inl e \<Rightarrow> Inl e
           | Inr v \<Rightarrow>
               if v = NULL then Inl Unreachable
               else Inr \<lparr>fr_stack = fr_stack f, fr_frame_pointer = previous_frame_pointer,
                         fr_size = fr_frame_pointer f - previous_frame_pointer\<rparr>))"

definition FirstLocalIndex :: "Frame \<Rightarrow> int" where
  "FirstLocalIndex f = (fr_frame_pointer f - Pointer (fr_stack f) 0) + 2"

text \<open>\<open>n\<close> applications of \<open>Previous()\<close>, stopping at the first fault.\<close>

fun Previous_times :: "nat \<Rightarrow> Frame \<Rightarrow> fault + Frame" where
  "Previous_times 0 f = Inr f"
| "Previous_times (Suc n) f =
     (case Previous f of Inl e \<Rightarrow> Inl e | Inr g \<Rightarrow> Previous_times n g)"

text \<open>
  Modelled from the spec: the invariant of the data model, "the chain of
  previous-frame-pointer slots is acyclic and terminates at the null sentinel".
  \<open>chain stack p n\<close> follows the saved pointers from the address \<open>p\<close>: after \<open>n\<close> links
  through slots that hold a non-null address, it arrives at the slot that holds the null
  sentinel. Such a chain visits no slot twice.
\<close>

fun chain :: "Stack \<Rightarrow> addr \<Rightarrow> nat \<Rightarrow> bool" where
  "chain stack p 0 = (deref stack p = Inr NULL)"
| "chain stack p (Suc n) =
     (case deref stack p of Inl e \<Rightarrow> False | Inr q \<Rightarrow> q \<noteq> NULL \<and> chain stack q n)"

text \<open>
  Modelled from the spec: the interpreter that builds the frames is not part of the
  sources at hand. Of its protocol the spec says: "Call: interpreter pushes arguments,
  pushes return bytecode pointer, pushes current frame pointer, sets new frame pointer to
  the pushed-pointer's slot". The top index of a stack is the index of its top slot
  (\<open>Frame::FirstFrame\<close> reads the slot at that index), and an activation record grows
  from the arguments, at the lowest address, upwards: a push stores a word in the slot
  above the top slot and makes that slot the top slot. A push beyond the slots of the
  stack is a fault.
\<close>

definition push :: "Stack \<Rightarrow> addr \<Rightarrow> fault + Stack" where
  "push stack v =
     (case put (slots stack) (top stack + 1) v of
        Inl e \<Rightarrow> Inl e
      | Inr s \<Rightarrow> Inr (stack\<lparr>slots := s, top := top stack + 1\<rparr>))"

fun push_all :: "Stack \<Rightarrow> addr list \<Rightarrow> fault + Stack" where
  "push_all stack [] = Inr stack"
| "push_all stack (v # vs) =
     (case push stack v of Inl e \<Rightarrow> Inl e | Inr s \<Rightarrow> push_all s vs)"

text \<open>
  The call of the protocol, from a state with the current frame pointer \<open>fp\<close>: the result
  is the stack after the three kinds of pushes and the new frame pointer.
\<close>

definition interpreter_call ::
  "Stack \<Rightarrow> addr \<Rightarrow> addr list \<Rightarrow> addr \<Rightarrow> fault + (Stack \<times> addr)" where
  "interpreter_call stack fp arguments return_bcp =
     (case push_all stack arguments of
        Inl e \<Rightarrow> Inl e
      | Inr s1 \<Rightarrow>
          (case push s1 return_bcp of
             Inl e \<Rightarrow> Inl e
           | Inr s2 \<Rightarrow>
               (case push s2 fp of
                  Inl e \<Rightarrow> Inl e
                | Inr s3 \<Rightarrow> Inr (s3, Pointer s3 (top s3)))))"

text \<open>
  Three stacks, each at address 1000. In \<open>stack_bottom_null\<close> slot 0 holds the null
  sentinel; the frame pointers of two calls are the slots 3 and 7, the base frame is
  anchored at slot 10 and the top slot 12 points to it. In \<open>stack_outermost_null\<close> the
  layout is that of the spec's data model: the slot of the outermost of two calls (slot 1)
  holds the null sentinel itself, the more recent call is anchored at slot 5, the base
  frame at slot 8. In \<open>stack_with_room\<close> the frame of the running call is anchored at
  slot 3, the top slot is slot 5, and six more slots are free.
\<close>

definition stack_bottom_null :: Stack where
  "stack_bottom_null =
     \<lparr>base = 1000,
      slots = [0, 7, 91, 1000, 0, 42, 92, 1003, 0, 93, 1007, 94, 1010],
      top = 12\<rparr>"

definition stack_outermost_null :: Stack where
  "stack_outermost_null =
     \<lparr>base = 1000,
      slots = [91, 0, 0, 42, 92, 1001, 0, 93, 1005, 94, 1008],
      top = 10\<rparr>"

definition stack_with_room :: Stack where
  "stack_with_room =
     \<lparr>base = 1000, slots = [0, 7, 91, 1000, 0, 42, 0, 0, 0, 0, 0, 0], top = 5\<rparr>"

section \<open>Evaluation lemmas\<close>

lemmas unicode_defs = at_def put_def kTrailBytes_def kMagicBits_def kOverlongMinimum_def
  IsTrailByte_def IsOutOfRange_def IsNonShortestForm_def IsSupplementarySequenceStart_def
  kMaxOneByteChar_def kMaxTwoByteChar_def kMaxThreeByteChar_def kMaxFourByteChar_def
  kMaxCodeUnit_def kLeadSurrogateOffset_def Utf16_Length_def IsLeadSurrogate_def
  IsTrailSurrogate_def Utf16_Decode_def Utf16_Encode_def get_code_unit_def
  CodePointIterator_init_def Current_def Next_def word_sle_eq word_sless_alt

lemma at_0: "at (x # xs) 0 = Inr x"
  by (simp add: at_def)

lemma kMagicBits_at:
  "at kMagicBits 0 = Inr 0" "at kMagicBits 1 = Inr 0" "at kMagicBits 2 = Inr 0x3080"
  "at kMagicBits 3 = Inr 0xE2080" "at kMagicBits 4 = Inr 0x3C82080"
  "at kMagicBits 5 = Inr 0xFA082080" "at kMagicBits 6 = Inr 0x82082080"
  by (simp_all add: at_def kMagicBits_def)

lemma IsNonShortestForm_simps:
  "IsNonShortestForm c 1 = Inr (c < 0)" "IsNonShortestForm c 2 = Inr (c < 0x80)"
  "IsNonShortestForm c 3 = Inr (c < 0x800)" "IsNonShortestForm c 4 = Inr (c < 0x10000)"
  "IsNonShortestForm c 5 = Inr (c < 0xFFFFFFFF)" "IsNonShortestForm c 6 = Inr (c < 0xFFFFFFFF)"
  by (simp_all add: IsNonShortestForm_def at_def kOverlongMinimum_def)

lemma unat_ucast_8_32: "unat (ucast (b :: 8 word) :: 32 word) = unat b"
proof -
  have "unat b < 2 ^ 32"
    using unsigned_less [of b, where 'a = nat] by simp
  then show ?thesis
    by (simp add: unsigned_ucast_eq take_bit_nat_eq_self)
qed

lemma ucast_and_0xFF: "ucast (b :: 8 word) AND (0xFF :: 32 word) = ucast b"
proof -
  have "ucast b AND (mask 8 :: 32 word) = ucast b"
  proof (rule bit_word_eqI)
    fix n
    show "bit (ucast b AND mask 8 :: 32 word) n = bit (ucast b :: 32 word) n"
      using bit_imp_le_length [of b n] by (auto simp: bit_simps)
  qed
  then show ?thesis
    by (simp add: mask_eq_exp_minus_1)
qed

section \<open>The lead-byte table\<close>

lemma kTrailBytes_blocks:
  "kTrailBytes = replicate 128 1 @ replicate 64 0 @ replicate 32 2 @ replicate 16 3
     @ replicate 8 4 @ replicate 4 5 @ replicate 2 6 @ replicate 2 0"
  by (simp add: kTrailBytes_def numeral_eq_Suc)

lemma kTrailBytes_length: "length kTrailBytes = 256"
  unfolding kTrailBytes_blocks by simp

lemma kTrailBytes_nth:
  assumes "n < 256"
  shows "kTrailBytes ! n =
     (if n < 128 then 1 else if n < 192 then 0 else if n < 224 then 2 else if n < 240 then 3
      else if n < 248 then 4 else if n < 252 then 5 else if n < 254 then 6 else 0)"
  using assms unfolding kTrailBytes_blocks by (auto simp: nth_append)

lemma kTrailBytes_at:
  fixes b :: "8 word"
  shows "at kTrailBytes (uint b) =
     Inr (if b < 0x80 then 1 else if b < 0xC0 then 0 else if b < 0xE0 then 2
          else if b < 0xF0 then 3 else if b < 0xF8 then 4 else if b < 0xFC then 5
          else if b < 0xFE then 6 else 0)"
proof -
  have lt: "unat b < 256"
    using unsigned_less [of b, where 'a = nat] by simp
  have "at kTrailBytes (uint b) = Inr (kTrailBytes ! unat b)"
    using uint_lt2p [of b] by (simp add: at_def kTrailBytes_length)
  then show ?thesis
    using lt by (simp add: kTrailBytes_nth word_less_nat_alt)
qed

lemma Decode_invalid_lead:
  fixes b :: "8 word"
  assumes "0x80 \<le> b" "b < 0xC0 \<or> 0xFE \<le> b"
  shows "Decode (b # rest) n = Inr (0, -1)"
proof -
  have ge: "(0x80 :: 32 word) \<le> ucast b"
    using assms(1) by (simp add: word_le_nat_alt unat_ucast_8_32)
  have "uint (ucast b :: 32 word) = uint b"
    by (simp add: uint_up_ucast is_up)
  then have tb: "at kTrailBytes (uint (ucast b :: 32 word)) = Inr 0"
    using assms by (auto simp: kTrailBytes_at word_less_nat_alt word_le_nat_alt)
  show ?thesis
    by (simp add: Decode_def at_0 ucast_and_0xFF ge tb Let_def kMagicBits_at
        IsNonShortestForm_simps)
qed

text \<open>
  C3, as stated, fails: the claim gives the table entry of an ASCII byte as 0 and that of
  a multi-byte lead as 1 to 5. The entry of the ASCII byte 0x41 is 1, that of the two-byte
  lead 0xC3 is 2, and that of the lead 0xFD is 6.
\<close>

theorem kTrailBytes_counterexample:
  "at kTrailBytes 0x41 = Inr 1 \<and> at kTrailBytes 0xC3 = Inr 2 \<and> at kTrailBytes 0xFD = Inr 6"
  by (simp add: at_def kTrailBytes_def)

text \<open>
  C3, amended: the 256-entry table \<open>kTrailBytes\<close> maps each lead byte to the length of its
  whole sequence, the lead byte included: 1 for the ASCII bytes 0x00-0x7F, 2 to 6 for the
  multi-byte lead bytes 0xC0-0xFD, and 0 for the stray continuation bytes 0x80-0xBF and
  for 0xFE and 0xFF. A lead byte whose entry is 0 makes \<open>Utf8::Decode\<close> fail on the lead
  byte alone: it returns 0 and stores the sentinel -1, whatever follows the byte and
  whatever length is passed.
\<close>

theorem kTrailBytes_sequence_length:
  "length kTrailBytes = 256
   \<and> (\<forall>b :: 8 word. at kTrailBytes (uint b) =
         Inr (if b < 0x80 then 1 else if b < 0xC0 then 0 else if b < 0xE0 then 2
              else if b < 0xF0 then 3 else if b < 0xF8 then 4 else if b < 0xFC then 5
              else if b < 0xFE then 6 else 0))
   \<and> (\<forall>(b :: 8 word) rest n.
         0x80 \<le> b \<and> at kTrailBytes (uint b) = Inr 0 \<longrightarrow> Decode (b # rest) n = Inr (0, -1))"
proof (intro conjI allI impI)
  show "length kTrailBytes = 256"
    by (rule kTrailBytes_length)
next
  fix b :: "8 word"
  show "at kTrailBytes (uint b) =
         Inr (if b < 0x80 then 1 else if b < 0xC0 then 0 else if b < 0xE0 then 2
              else if b < 0xF0 then 3 else if b < 0xF8 then 4 else if b < 0xFC then 5
              else if b < 0xFE then 6 else 0)"
    by (rule kTrailBytes_at)
next
  fix b :: "8 word" and rest :: "8 word list" and n :: int
  assume h: "0x80 \<le> b \<and> at kTrailBytes (uint b) = Inr 0"
  then have "b < 0xC0 \<or> 0xFE \<le> b"
    by (auto simp: kTrailBytes_at not_less split: if_splits)
  with h show "Decode (b # rest) n = Inr (0, -1)"
    by (simp add: Decode_invalid_lead)
qed

theorem kTrailBytes_sequence_length_witness:
  "(0x80 :: 8 word) \<le> 0xFF \<and> at kTrailBytes (uint (0xFF :: 8 word)) = Inr 0
   \<and> Decode [0xFF, 0x80] 2 = Inr (0, -1)"
proof -
  have t: "at kTrailBytes (uint (0xFF :: 8 word)) = Inr 0"
    by (simp add: at_def kTrailBytes_def)
  have h: "(0x80 :: 8 word) \<le> 0xFF \<and> at kTrailBytes (uint (0xFF :: 8 word)) = Inr 0"
    using t by simp
  from kTrailBytes_sequence_length have
    "\<forall>(b :: 8 word) rest n.
       0x80 \<le> b \<and> at kTrailBytes (uint b) = Inr 0 \<longrightarrow> Decode (b # rest) n = Inr (0, -1)"
    by blast
  then have "Decode [0xFF, 0x80] 2 = Inr (0, -1)"
    using h by blast
  with h show ?thesis
    by blast
qed

section \<open>Decoding single sequences\<close>

text \<open>
  C5: \<open>Utf8::Decode\<close> on the two bytes 0xC0 0x80, an overlong encoding of U+0000, rejects
  the sequence: it returns 0 bytes consumed and stores the sentinel -1.
\<close>

theorem Decode_overlong_rejected:
  "Decode [0xC0, 0x80] 2 = Inr (0, -1)"
  by (simp add: Decode_def unicode_defs)

text \<open>
  C6: \<open>Utf8::Decode\<close> on a buffer of length 1 that holds only the lead byte 0xE2 reports
  failure: it returns 0 and stores the sentinel -1. The buffer of the model holds this one
  byte, so a read at an index of 1 or more would be the fault \<open>OutOfBounds\<close>; the result
  is no fault. The same holds with any bytes after the lead byte, which the call with
  length 1 never reads.
\<close>

theorem Decode_truncated_lead:
  "Decode [0xE2] 1 = Inr (0, -1) \<and> (\<forall>rest. Decode (0xE2 # rest) 1 = Inr (0, -1))"
  by (simp add: Decode_def unicode_defs)

section \<open>Encoding and decoding one code point\<close>

lemma sint_small:
  fixes w :: "32 word"
  assumes "w \<le> 0x10FFFF"
  shows "sint w = uint w"
proof -
  have "uint w \<le> 0x10FFFF"
    using assms by (simp add: word_le_def)
  then have hi: "uint w < 2 ^ 31"
    by simp
  have "- (2 ^ 31) \<le> (0 :: int)"
    by simp
  then have "- (2 ^ 31) \<le> uint w"
    by (rule order_trans) (rule uint_ge_0)
  with hi show ?thesis
    by (simp add: sint_uint signed_take_bit_int_eq_self)
qed

lemma sle_small:
  fixes w :: "32 word"
  assumes "w \<le> 0x10FFFF"
  shows "w \<le>s 0x7F \<longleftrightarrow> w \<le> 0x7F" "w \<le>s 0x7FF \<longleftrightarrow> w \<le> 0x7FF"
    "w \<le>s 0xFFFF \<longleftrightarrow> w \<le> 0xFFFF" "w \<le>s 0x10FFFF"
  using assms by (simp_all add: word_sle_eq sint_small word_le_def)

lemma bit_small:
  fixes w :: "32 word"
  assumes "w < 2 ^ k" "bit w n"
  shows "n < k"
proof -
  have "take_bit k w = w"
    using assms(1) by (simp add: take_bit_eq_mask less_mask_eq)
  then have "bit (take_bit k w) n"
    using assms(2) by simp
  then show ?thesis
    by (simp add: bit_take_bit_iff)
qed

lemma signed_drop_bit_small:
  fixes w :: "32 word"
  assumes "w \<le> 0x10FFFF"
  shows "signed_drop_bit m w = drop_bit m w"
proof (rule bit_word_eqI)
  fix n
  have w: "w < 2 ^ 21"
    using assms by (simp add: word_less_nat_alt word_le_nat_alt)
  have a: "\<not> bit w 31"
    using bit_small [OF w, of 31] by auto
  have b: "\<not> bit w (m + n)" if "32 \<le> m + n"
    using that bit_imp_le_length [of w "m + n"] by auto
  have "bit (signed_drop_bit m w) n
      \<longleftrightarrow> bit w (if 32 - m \<le> n \<and> n < 32 then 31 else m + n)"
    by (simp add: bit_signed_drop_bit_iff)
  also have "\<dots> \<longleftrightarrow> bit w (m + n)"
  proof (cases "32 - m \<le> n \<and> n < 32")
    case True
    then have "32 \<le> m + n"
      by linarith
    with True a b show ?thesis
      by simp
  next
    case False
    then show ?thesis
      by auto
  qed
  also have "\<dots> \<longleftrightarrow> bit (drop_bit m w) n"
    by (simp add: bit_drop_bit_eq ac_simps)
  finally show "bit (signed_drop_bit m w) n \<longleftrightarrow> bit (drop_bit m w) n" .
qed

lemma or_eq_plus:
  fixes x y :: "'a::len word"
  assumes "x AND y = 0"
  shows "x OR y = x + y"
  using word_plus_and_or [of x y] assms by simp

lemma bit_consts:
  "bit (0x80 :: int) n \<longleftrightarrow> n = 7"
  "bit (0xC0 :: int) n \<longleftrightarrow> n = 6 \<or> n = 7"
  "bit (0xE0 :: int) n \<longleftrightarrow> n = 5 \<or> n = 6 \<or> n = 7"
  "bit (0xF0 :: int) n \<longleftrightarrow> n = 4 \<or> n = 5 \<or> n = 6 \<or> n = 7"
  "bit kMask n \<longleftrightarrow> n < 32 \<and> n \<noteq> 6"
proof -
  have e: "(0x80 :: int) = push_bit 7 (mask 1)" "(0xC0 :: int) = push_bit 6 (mask 2)"
    "(0xE0 :: int) = push_bit 5 (mask 3)" "(0xF0 :: int) = push_bit 4 (mask 4)"
    "kMask = NOT (push_bit 6 (mask 1))"
    by (simp_all add: mask_eq_exp_minus_1 kMask_def)
  show "bit (0x80 :: int) n \<longleftrightarrow> n = 7"
    unfolding e by (simp only: bit_push_bit_iff bit_mask_iff possible_bit_int) auto
  show "bit (0xC0 :: int) n \<longleftrightarrow> n = 6 \<or> n = 7"
    unfolding e by (simp only: bit_push_bit_iff bit_mask_iff possible_bit_int) auto
  show "bit (0xE0 :: int) n \<longleftrightarrow> n = 5 \<or> n = 6 \<or> n = 7"
    unfolding e by (simp only: bit_push_bit_iff bit_mask_iff possible_bit_int) auto
  show "bit (0xF0 :: int) n \<longleftrightarrow> n = 4 \<or> n = 5 \<or> n = 6 \<or> n = 7"
    unfolding e by (simp only: bit_push_bit_iff bit_mask_iff possible_bit_int) auto
  show "bit kMask n \<longleftrightarrow> n < 32 \<and> n \<noteq> 6"
    unfolding e by (simp only: bit_not_iff bit_push_bit_iff bit_mask_iff possible_bit_word) auto
qed

lemmas bit_rules = bit_and_iff bit_or_iff bit_ucast_iff bit_take_bit_iff bit_drop_bit_eq
  bit_consts

text \<open>
  The bytes that \<open>Utf8::Encode\<close> stores, read back as 32-bit values: a continuation byte
  is 0x80 plus six bits of the code point, a lead byte is its prefix plus the high bits.
\<close>

lemma trail_byte:
  fixes x :: "32 word"
  shows "ucast (ucast (0x80 OR (x AND kMask)) :: 8 word) = (0x80 :: 32 word) + take_bit 6 x"
    and "IsTrailByte (ucast (0x80 OR (x AND kMask)))"
proof -
  have "ucast (ucast (0x80 OR (x AND kMask)) :: 8 word) = (0x80 OR take_bit 6 x :: 32 word)"
    by (rule bit_word_eqI) (auto simp: bit_rules)
  moreover have "(0x80 :: 32 word) AND take_bit 6 x = 0"
    by (rule bit_word_eqI) (auto simp: bit_rules)
  ultimately show "ucast (ucast (0x80 OR (x AND kMask)) :: 8 word) = (0x80 :: 32 word) + take_bit 6 x"
    by (simp add: or_eq_plus)
  have "(ucast (0x80 OR (x AND kMask)) :: 8 word) AND 0xC0 = 0x80"
    by (rule bit_word_eqI) (auto simp: bit_rules)
  then show "IsTrailByte (ucast (0x80 OR (x AND kMask)))"
    by (simp add: IsTrailByte_def)
qed

lemma lead_byte:
  fixes d :: "32 word"
  shows "ucast (ucast (0xC0 OR take_bit 5 d) :: 8 word) = (0xC0 :: 32 word) + take_bit 5 d"
    and "ucast (ucast (0xE0 OR take_bit 4 d) :: 8 word) = (0xE0 :: 32 word) + take_bit 4 d"
    and "ucast (ucast (0xF0 OR take_bit 3 d) :: 8 word) = (0xF0 :: 32 word) + take_bit 3 d"
proof -
  have "ucast (ucast (0xC0 OR take_bit 5 d) :: 8 word) = (0xC0 OR take_bit 5 d :: 32 word)"
    by (rule bit_word_eqI) (auto simp: bit_rules)
  moreover have "(0xC0 :: 32 word) AND take_bit 5 d = 0"
    by (rule bit_word_eqI) (auto simp: bit_rules)
  ultimately show "ucast (ucast (0xC0 OR take_bit 5 d) :: 8 word) = (0xC0 :: 32 word) + take_bit 5 d"
    by (simp add: or_eq_plus)
  have "ucast (ucast (0xE0 OR take_bit 4 d) :: 8 word) = (0xE0 OR take_bit 4 d :: 32 word)"
    by (rule bit_word_eqI) (auto simp: bit_rules)
  moreover have "(0xE0 :: 32 word) AND take_bit 4 d = 0"
    by (rule bit_word_eqI) (auto simp: bit_rules)
  ultimately show "ucast (ucast (0xE0 OR take_bit 4 d) :: 8 word) = (0xE0 :: 32 word) + take_bit 4 d"
    by (simp add: or_eq_plus)
  have "ucast (ucast (0xF0 OR take_bit 3 d) :: 8 word) = (0xF0 OR take_bit 3 d :: 32 word)"
    by (rule bit_word_eqI) (auto simp: bit_rules)
  moreover have "(0xF0 :: 32 word) AND take_bit 3 d = 0"
    by (rule bit_word_eqI) (auto simp: bit_rules)
  ultimately show "ucast (ucast (0xF0 OR take_bit 3 d) :: 8 word) = (0xF0 :: 32 word) + take_bit 3 d"
    by (simp add: or_eq_plus)
qed

lemma take_bit_self:
  fixes w :: "32 word"
  assumes "w < 2 ^ k"
  shows "take_bit k w = w"
  using assms by (simp add: take_bit_eq_mask less_mask_eq)

lemma unat_fields:
  fixes ch :: "32 word"
  shows "unat (drop_bit k ch) = unat ch div 2 ^ k"
    and "unat (take_bit k ch) = unat ch mod 2 ^ k"
proof -
  show "unat (drop_bit k ch) = unat ch div 2 ^ k"
    unfolding unat_drop_bit_eq by (rule drop_bit_eq_div)
  show "unat (take_bit k ch) = unat ch mod 2 ^ k"
    unfolding unsigned_take_bit_eq by (rule take_bit_eq_mod)
qed

lemma drop_bit_small:
  fixes ch :: "32 word"
  shows "ch \<le> 0x7FF \<Longrightarrow> take_bit 5 (drop_bit 6 ch) = drop_bit 6 ch"
    and "ch \<le> 0xFFFF \<Longrightarrow> take_bit 4 (drop_bit 12 ch) = drop_bit 12 ch"
    and "ch \<le> 0x10FFFF \<Longrightarrow> take_bit 3 (drop_bit 18 ch) = drop_bit 18 ch"
  by (rule take_bit_self, simp add: word_less_nat_alt word_le_nat_alt unat_fields)+

lemma ucast_ge_0x80:
  fixes b :: "8 word"
  assumes "0x80 \<le> b"
  shows "(0x80 :: 32 word) \<le> ucast b"
  using assms by (simp add: word_le_nat_alt unat_ucast_8_32)

lemma kTrailBytes_lead:
  fixes b :: "8 word"
  shows "0xC0 \<le> b \<Longrightarrow> b < 0xE0 \<Longrightarrow> at kTrailBytes (uint (ucast b :: 32 word)) = Inr 2"
    and "0xE0 \<le> b \<Longrightarrow> b < 0xF0 \<Longrightarrow> at kTrailBytes (uint (ucast b :: 32 word)) = Inr 3"
    and "0xF0 \<le> b \<Longrightarrow> b < 0xF8 \<Longrightarrow> at kTrailBytes (uint (ucast b :: 32 word)) = Inr 4"
proof -
  have u: "uint (ucast b :: 32 word) = uint b"
    by (simp add: uint_up_ucast is_up)
  show "0xC0 \<le> b \<Longrightarrow> b < 0xE0 \<Longrightarrow> at kTrailBytes (uint (ucast b :: 32 word)) = Inr 2"
    unfolding u by (auto simp: kTrailBytes_at word_less_nat_alt word_le_nat_alt)
  show "0xE0 \<le> b \<Longrightarrow> b < 0xF0 \<Longrightarrow> at kTrailBytes (uint (ucast b :: 32 word)) = Inr 3"
    unfolding u by (auto simp: kTrailBytes_at word_less_nat_alt word_le_nat_alt)
  show "0xF0 \<le> b \<Longrightarrow> b < 0xF8 \<Longrightarrow> at kTrailBytes (uint (ucast b :: 32 word)) = Inr 4"
    unfolding u by (auto simp: kTrailBytes_at word_less_nat_alt word_le_nat_alt)
qed

lemma Decode_2:
  assumes "at buf 0 = Inr b0" "at buf 1 = Inr b1"
    and "0xC0 \<le> b0" "b0 < 0xE0" "IsTrailByte b1"
  shows "Decode buf 2 =
     Inr (let c = push_bit 6 (ucast b0) + ucast b1 - 0x3080
          in if IsOutOfRange c \<or> c < 0x80 then (0, -1) else (2, c))"
proof -
  have "0x80 \<le> b0"
    using assms(3) by (simp add: word_le_nat_alt)
  then have ge: "(0x80 :: 32 word) \<le> ucast b0"
    by (rule ucast_ge_0x80)
  show ?thesis
    using assms(5)
    by (simp add: Decode_def assms(1,2) ucast_and_0xFF ge kTrailBytes_lead(1) [OF assms(3,4)]
        kMagicBits_at IsNonShortestForm_simps Let_def)
qed

lemma Decode_3:
  assumes "at buf 0 = Inr b0" "at buf 1 = Inr b1" "at buf 2 = Inr b2"
    and "0xE0 \<le> b0" "b0 < 0xF0" "IsTrailByte b1" "IsTrailByte b2"
  shows "Decode buf 3 =
     Inr (let c = push_bit 6 (push_bit 6 (ucast b0) + ucast b1) + ucast b2 - 0xE2080
          in if IsOutOfRange c \<or> c < 0x800 then (0, -1) else (3, c))"
proof -
  have "0x80 \<le> b0"
    using assms(4) by (simp add: word_le_nat_alt)
  then have ge: "(0x80 :: 32 word) \<le> ucast b0"
    by (rule ucast_ge_0x80)
  show ?thesis
    using assms(6,7)
    by (simp add: Decode_def assms(1,2,3) ucast_and_0xFF ge kTrailBytes_lead(2) [OF assms(4,5)]
        kMagicBits_at IsNonShortestForm_simps Let_def)
qed

lemma Decode_4:
  assumes "at buf 0 = Inr b0" "at buf 1 = Inr b1" "at buf 2 = Inr b2" "at buf 3 = Inr b3"
    and "0xF0 \<le> b0" "b0 < 0xF8" "IsTrailByte b1" "IsTrailByte b2" "IsTrailByte b3"
  shows "Decode buf 4 =
     Inr (let c = push_bit 6 (push_bit 6 (push_bit 6 (ucast b0) + ucast b1) + ucast b2)
                    + ucast b3 - 0x3C82080
          in if IsOutOfRange c \<or> c < 0x10000 then (0, -1) else (4, c))"
proof -
  have "0x80 \<le> b0"
    using assms(5) by (simp add: word_le_nat_alt)
  then have ge: "(0x80 :: 32 word) \<le> ucast b0"
    by (rule ucast_ge_0x80)
  show ?thesis
    using assms(7,8,9)
    by (simp add: Decode_def assms(1,2,3,4) ucast_and_0xFF ge kTrailBytes_lead(3) [OF assms(5,6)]
        kMagicBits_at IsNonShortestForm_simps Let_def)
qed

lemma code_point_range:
  fixes ch :: "32 word"
  shows "0 \<le>s ch \<and> ch \<le>s 0x10FFFF \<longleftrightarrow> ch \<le> 0x10FFFF"
proof
  assume h: "0 \<le>s ch \<and> ch \<le>s 0x10FFFF"
  then have s: "0 \<le> sint ch" "sint ch \<le> 0x10FFFF"
    by (simp_all add: word_sle_eq)
  then have "sint ch < 2 ^ 32"
    by simp
  with s(1) have "take_bit 32 (sint ch) = sint ch"
    by (simp add: take_bit_int_eq_self)
  then have "uint ch = sint ch"
    using uint_sint [of ch] by simp
  with s(2) show "ch \<le> 0x10FFFF"
    by (simp add: word_le_def)
next
  assume h: "ch \<le> 0x10FFFF"
  then have "sint ch = uint ch"
    by (rule sint_small)
  with h show "0 \<le>s ch \<and> ch \<le>s 0x10FFFF"
    by (simp add: word_sle_eq word_le_def)
qed

lemma Length_cases:
  fixes ch :: "32 word"
  assumes "ch \<le> 0x10FFFF"
  shows "Length ch = Inr (if ch \<le> 0x7F then 1 else if ch \<le> 0x7FF then 2
                           else if ch \<le> 0xFFFF then 3 else 4)"
  using sle_small [OF assms]
  by (simp add: Length_def kMaxOneByteChar_def kMaxTwoByteChar_def kMaxThreeByteChar_def
      kMaxFourByteChar_def)

lemma ascii_byte:
  fixes x :: "32 word"
  shows "ucast (ucast (take_bit 7 x) :: 8 word) = (take_bit 7 x :: 32 word)"
  by (rule bit_word_eqI) (auto simp: bit_rules)

lemma round_trip_1:
  fixes ch :: "32 word"
  assumes "ch \<le> 0x7F" "1 \<le> int (length dst)"
  shows "\<exists>dst'. Encode ch dst 0 = Inr (dst', 1) \<and> Decode dst' 1 = Inr (1, ch)"
proof -
  have r: "ch \<le> 0x10FFFF"
    using assms(1) by (simp add: word_le_nat_alt)
  have "ch < 2 ^ 7"
    using assms(1) by (simp add: word_le_nat_alt word_less_nat_alt)
  then have "take_bit 7 ch = ch"
    by (rule take_bit_self)
  then have b: "ucast (ucast ch :: 8 word) = ch"
    using ascii_byte [of ch] by simp
  have e: "Encode ch dst 0 = Inr (dst[0 := ucast ch], 1)"
    using assms sle_small [OF r] by (auto simp: Encode_def kMaxOneByteChar_def put_def)
  have a: "at (dst[0 := ucast ch]) 0 = Inr (ucast ch :: 8 word)"
    using assms(2) by (auto simp: at_def)
  have lt: "\<not> 0x80 \<le> ch"
    using assms(1) by (simp add: word_le_nat_alt)
  have b': "ucast (ucast ch :: 8 word) AND (0xFF :: 32 word) = ch"
    using ucast_and_0xFF [of "ucast ch :: 8 word"] b by simp
  have "Decode (dst[0 := ucast ch]) 1 = Inr (1, ch)"
    using lt by (simp add: Decode_def a b')
  with e show ?thesis
    by simp
qed

lemma lead_range:
  fixes d :: "32 word" and b :: "8 word"
  assumes "ucast b = c + d" "unat c + unat d < 256"
  shows "unat b = unat c + unat d"
proof -
  have "unat (c + d) = unat c + unat d"
    using assms(2) by (simp add: unat_add_lem [THEN iffD1])
  then show ?thesis
    using assms(1) unat_ucast_8_32 [of b] by simp
qed

lemma round_trip_2:
  fixes ch :: "32 word"
  assumes "\<not> ch \<le> 0x7F" "ch \<le> 0x7FF" "2 \<le> int (length dst)"
  shows "\<exists>dst'. Encode ch dst 0 = Inr (dst', 2) \<and> Decode dst' 2 = Inr (2, ch)"
proof -
  have r: "ch \<le> 0x10FFFF"
    using assms(2) by (simp add: word_le_nat_alt)
  define b0 :: "8 word" where "b0 = ucast (0xC0 OR drop_bit 6 ch)"
  define b1 :: "8 word" where "b1 = ucast (0x80 OR (ch AND kMask))"
  define dst' where "dst' = dst[0 := b0, 1 := b1]"
  have e: "Encode ch dst 0 = Inr (dst', 2)"
    using assms sle_small [OF r]
    by (auto simp: Encode_def kMaxOneByteChar_def kMaxTwoByteChar_def put_def
        signed_drop_bit_small [OF r] b0_def b1_def dst'_def)
  have a: "at dst' 0 = Inr b0" "at dst' 1 = Inr b1"
    using assms(3) by (auto simp: at_def dst'_def)
  have u0: "ucast b0 = (0xC0 :: 32 word) + drop_bit 6 ch"
    using lead_byte(1) [of "drop_bit 6 ch"] drop_bit_small(1) [OF assms(2)]
    by (simp add: b0_def)
  have u1: "ucast b1 = (0x80 :: 32 word) + take_bit 6 ch"
    by (simp add: b1_def trail_byte(1))
  have t1: "IsTrailByte b1"
    by (simp add: b1_def trail_byte(2))
  have "unat (drop_bit 6 ch) < 32"
    using assms(2) by (simp add: unat_fields word_le_nat_alt)
  then have "unat b0 = 192 + unat (drop_bit 6 ch)"
    using lead_range [OF u0] by simp
  then have rg: "0xC0 \<le> b0" "b0 < 0xE0"
    using \<open>unat (drop_bit 6 ch) < 32\<close> by (simp_all add: word_le_nat_alt word_less_nat_alt)
  have "push_bit 6 (ucast b0) + ucast b1 - 0x3080 = push_bit 6 (drop_bit 6 ch) + take_bit 6 ch"
    by (simp add: u0 u1 push_bit_eq_mult algebra_simps)
  then have c: "push_bit 6 (ucast b0) + ucast b1 - 0x3080 = ch"
    by (simp add: bits_ident)
  have ok: "\<not> IsOutOfRange ch" "\<not> ch < 0x80"
    using assms(1) r by (simp_all add: IsOutOfRange_def word_le_nat_alt word_less_nat_alt)
  have "Decode dst' 2 = Inr (2, ch)"
    using ok by (simp add: Decode_2 [OF a rg t1] c)
  with e show ?thesis
    by simp
qed

lemma round_trip_3:
  fixes ch :: "32 word"
  assumes "\<not> ch \<le> 0x7FF" "ch \<le> 0xFFFF" "3 \<le> int (length dst)"
  shows "\<exists>dst'. Encode ch dst 0 = Inr (dst', 3) \<and> Decode dst' 3 = Inr (3, ch)"
proof -
  have r: "ch \<le> 0x10FFFF"
    using assms(2) by (simp add: word_le_nat_alt)
  have n1: "\<not> ch \<le> 0x7F"
    using assms(1) by (simp add: word_le_nat_alt)
  define b0 :: "8 word" where "b0 = ucast (0xE0 OR drop_bit 12 ch)"
  define b1 :: "8 word" where "b1 = ucast (0x80 OR (drop_bit 6 ch AND kMask))"
  define b2 :: "8 word" where "b2 = ucast (0x80 OR (ch AND kMask))"
  define dst' where "dst' = dst[0 := b0, 1 := b1, 2 := b2]"
  have e: "Encode ch dst 0 = Inr (dst', 3)"
    using assms n1 sle_small [OF r]
    by (auto simp: Encode_def kMaxOneByteChar_def kMaxTwoByteChar_def kMaxThreeByteChar_def
        put_def signed_drop_bit_small [OF r] b0_def b1_def b2_def dst'_def)
  have a: "at dst' 0 = Inr b0" "at dst' 1 = Inr b1" "at dst' 2 = Inr b2"
    using assms(3) by (auto simp: at_def dst'_def)
  have u0: "ucast b0 = (0xE0 :: 32 word) + drop_bit 12 ch"
    using lead_byte(2) [of "drop_bit 12 ch"] drop_bit_small(2) [OF assms(2)]
    by (simp add: b0_def)
  have u1: "ucast b1 = (0x80 :: 32 word) + take_bit 6 (drop_bit 6 ch)"
    by (simp add: b1_def trail_byte(1))
  have u2: "ucast b2 = (0x80 :: 32 word) + take_bit 6 ch"
    by (simp add: b2_def trail_byte(1))
  have t: "IsTrailByte b1" "IsTrailByte b2"
    by (simp_all add: b1_def b2_def trail_byte(2))
  have d: "unat (drop_bit 12 ch) < 16"
    using assms(2) by (simp add: unat_fields word_le_nat_alt)
  then have "unat b0 = 224 + unat (drop_bit 12 ch)"
    using lead_range [OF u0] by simp
  then have rg: "0xE0 \<le> b0" "b0 < 0xF0"
    using d by (simp_all add: word_le_nat_alt word_less_nat_alt)
  have i2: "push_bit 6 (drop_bit 12 ch) + take_bit 6 (drop_bit 6 ch) = drop_bit 6 ch"
    using bits_ident [of 6 "drop_bit 6 ch"] by simp
  have "push_bit 6 (push_bit 6 (ucast b0) + ucast b1) + ucast b2 - 0xE2080
      = push_bit 6 (push_bit 6 (drop_bit 12 ch) + take_bit 6 (drop_bit 6 ch)) + take_bit 6 ch"
    by (simp add: u0 u1 u2 push_bit_eq_mult algebra_simps)
  also have "\<dots> = push_bit 6 (drop_bit 6 ch) + take_bit 6 ch"
    by (simp only: i2)
  also have "\<dots> = ch"
    by (rule bits_ident)
  finally have c: "push_bit 6 (push_bit 6 (ucast b0) + ucast b1) + ucast b2 - 0xE2080 = ch" .
  have ok: "\<not> IsOutOfRange ch" "\<not> ch < 0x800"
    using assms(1) r by (simp_all add: IsOutOfRange_def word_le_nat_alt word_less_nat_alt)
  have "Decode dst' 3 = Inr (3, ch)"
    using ok by (simp add: Decode_3 [OF a rg t] c)
  with e show ?thesis
    by simp
qed

lemma round_trip_4:
  fixes ch :: "32 word"
  assumes "\<not> ch \<le> 0xFFFF" "ch \<le> 0x10FFFF" "4 \<le> int (length dst)"
  shows "\<exists>dst'. Encode ch dst 0 = Inr (dst', 4) \<and> Decode dst' 4 = Inr (4, ch)"
proof -
  note r = assms(2)
  have n: "\<not> ch \<le> 0x7F" "\<not> ch \<le> 0x7FF"
    using assms(1) by (simp_all add: word_le_nat_alt)
  define b0 :: "8 word" where "b0 = ucast (0xF0 OR drop_bit 18 ch)"
  define b1 :: "8 word" where "b1 = ucast (0x80 OR (drop_bit 12 ch AND kMask))"
  define b2 :: "8 word" where "b2 = ucast (0x80 OR (drop_bit 6 ch AND kMask))"
  define b3 :: "8 word" where "b3 = ucast (0x80 OR (ch AND kMask))"
  define dst' where "dst' = dst[0 := b0, 1 := b1, 2 := b2, 3 := b3]"
  have e: "Encode ch dst 0 = Inr (dst', 4)"
    using assms n sle_small [OF r]
    by (auto simp: Encode_def kMaxOneByteChar_def kMaxTwoByteChar_def kMaxThreeByteChar_def
        kMaxFourByteChar_def put_def signed_drop_bit_small [OF r]
        b0_def b1_def b2_def b3_def dst'_def)
  have a: "at dst' 0 = Inr b0" "at dst' 1 = Inr b1" "at dst' 2 = Inr b2" "at dst' 3 = Inr b3"
    using assms(3) by (auto simp: at_def dst'_def)
  have u0: "ucast b0 = (0xF0 :: 32 word) + drop_bit 18 ch"
    using lead_byte(3) [of "drop_bit 18 ch"] drop_bit_small(3) [OF assms(2)]
    by (simp add: b0_def)
  have u1: "ucast b1 = (0x80 :: 32 word) + take_bit 6 (drop_bit 12 ch)"
    by (simp add: b1_def trail_byte(1))
  have u2: "ucast b2 = (0x80 :: 32 word) + take_bit 6 (drop_bit 6 ch)"
    by (simp add: b2_def trail_byte(1))
  have u3: "ucast b3 = (0x80 :: 32 word) + take_bit 6 ch"
    by (simp add: b3_def trail_byte(1))
  have t: "IsTrailByte b1" "IsTrailByte b2" "IsTrailByte b3"
    by (simp_all add: b1_def b2_def b3_def trail_byte(2))
  have d: "unat (drop_bit 18 ch) < 8"
    using assms(2) by (simp add: unat_fields word_le_nat_alt)
  then have "unat b0 = 240 + unat (drop_bit 18 ch)"
    using lead_range [OF u0] by simp
  then have rg: "0xF0 \<le> b0" "b0 < 0xF8"
    using d by (simp_all add: word_le_nat_alt word_less_nat_alt)
  have i3: "push_bit 6 (drop_bit 18 ch) + take_bit 6 (drop_bit 12 ch) = drop_bit 12 ch"
    using bits_ident [of 6 "drop_bit 12 ch"] by simp
  have i2: "push_bit 6 (drop_bit 12 ch) + take_bit 6 (drop_bit 6 ch) = drop_bit 6 ch"
    using bits_ident [of 6 "drop_bit 6 ch"] by simp
  have "push_bit 6 (push_bit 6 (push_bit 6 (ucast b0) + ucast b1) + ucast b2) + ucast b3
          - 0x3C82080
      = push_bit 6 (push_bit 6 (push_bit 6 (drop_bit 18 ch) + take_bit 6 (drop_bit 12 ch))
          + take_bit 6 (drop_bit 6 ch)) + take_bit 6 ch"
    by (simp add: u0 u1 u2 u3 push_bit_eq_mult algebra_simps)
  also have "\<dots> = push_bit 6 (push_bit 6 (drop_bit 12 ch) + take_bit 6 (drop_bit 6 ch))
      + take_bit 6 ch"
    by (simp only: i3)
  also have "\<dots> = push_bit 6 (drop_bit 6 ch) + take_bit 6 ch"
    by (simp only: i2)
  also have "\<dots> = ch"
    by (rule bits_ident)
  finally have c: "push_bit 6 (push_bit 6 (push_bit 6 (ucast b0) + ucast b1) + ucast b2)
      + ucast b3 - 0x3C82080 = ch" .
  have ok: "\<not> IsOutOfRange ch" "\<not> ch < 0x10000"
    using assms(1) r by (simp_all add: IsOutOfRange_def word_le_nat_alt word_less_nat_alt)
  have "Decode dst' 4 = Inr (4, ch)"
    using ok by (simp add: Decode_4 [OF a rg t] c)
  with e show ?thesis
    by simp
qed

text \<open>
  C1: for every code point \<open>ch\<close> in [U+0000, U+10FFFF] outside of the surrogate range
  [U+D800, U+DFFF], \<open>Utf8::Length\<close> returns a length \<open>n\<close>, \<open>Utf8::Encode\<close> stores \<open>n\<close> bytes
  into any destination with room for them and returns \<open>n\<close>, and \<open>Utf8::Decode\<close> on these
  bytes with the array length \<open>n\<close> succeeds: it returns \<open>n\<close> bytes consumed and stores the
  code point \<open>ch\<close>. The code point is an \<open>int32\<close>, so its range is stated with the signed
  order.
\<close>

theorem Utf8_round_trip:
  "0 \<le>s ch \<and> ch \<le>s 0x10FFFF \<and> \<not> (0xD800 \<le>s ch \<and> ch \<le>s 0xDFFF) \<longrightarrow>
     (\<exists>n. Length ch = Inr n \<and>
        (\<forall>dst. n \<le> int (length dst) \<longrightarrow>
           (\<exists>dst'. Encode ch dst 0 = Inr (dst', n) \<and> Decode dst' n = Inr (n, ch))))"
proof
  assume "0 \<le>s ch \<and> ch \<le>s 0x10FFFF \<and> \<not> (0xD800 \<le>s ch \<and> ch \<le>s 0xDFFF)"
  then have "0 \<le>s ch \<and> ch \<le>s 0x10FFFF"
    by blast
  then have r: "ch \<le> 0x10FFFF"
    by (simp only: code_point_range)
  consider "ch \<le> 0x7F" | "\<not> ch \<le> 0x7F" "ch \<le> 0x7FF" | "\<not> ch \<le> 0x7FF" "ch \<le> 0xFFFF"
    | "\<not> ch \<le> 0xFFFF"
    by blast
  then show "\<exists>n. Length ch = Inr n \<and>
        (\<forall>dst. n \<le> int (length dst) \<longrightarrow>
           (\<exists>dst'. Encode ch dst 0 = Inr (dst', n) \<and> Decode dst' n = Inr (n, ch)))"
  proof cases
    case 1
    then show ?thesis
      using round_trip_1 by (simp add: Length_cases [OF r])
  next
    case 2
    then show ?thesis
      using round_trip_2 by (simp add: Length_cases [OF r])
  next
    case 3
    then have "\<not> ch \<le> 0x7F"
      by (simp add: word_le_nat_alt)
    with 3 show ?thesis
      using round_trip_3 by (simp add: Length_cases [OF r])
  next
    case 4
    then have "\<not> ch \<le> 0x7F" "\<not> ch \<le> 0x7FF"
      by (simp_all add: word_le_nat_alt)
    with 4 r show ?thesis
      using round_trip_4 by (simp add: Length_cases [OF r])
  qed
qed

theorem Utf8_round_trip_witness:
  "(0 :: 32 word) \<le>s 0x20AC \<and> (0x20AC :: 32 word) \<le>s 0x10FFFF
   \<and> \<not> ((0xD800 :: 32 word) \<le>s 0x20AC \<and> (0x20AC :: 32 word) \<le>s 0xDFFF)
   \<and> Length 0x20AC = Inr 3
   \<and> Encode 0x20AC [0, 0, 0] 0 = Inr ([0xE2, 0x82, 0xAC], 3)
   \<and> Decode [0xE2, 0x82, 0xAC] 3 = Inr (3, 0x20AC)"
proof -
  have h: "(0 :: 32 word) \<le>s 0x20AC \<and> (0x20AC :: 32 word) \<le>s 0x10FFFF
      \<and> \<not> ((0xD800 :: 32 word) \<le>s 0x20AC \<and> (0x20AC :: 32 word) \<le>s 0xDFFF)"
    by (simp add: word_sle_eq)
  have l: "Length 0x20AC = Inr 3"
    by (simp add: Length_def unicode_defs)
  have e: "Encode 0x20AC [0, 0, 0] 0 = Inr ([0xE2, 0x82, 0xAC], 3)"
    by (simp add: Encode_def unicode_defs kMask_def)
  from Utf8_round_trip [of "0x20AC"] h l
  have "\<forall>dst. 3 \<le> int (length dst) \<longrightarrow>
      (\<exists>dst'. Encode 0x20AC dst 0 = Inr (dst', 3) \<and> Decode dst' 3 = Inr (3, 0x20AC))"
    by auto
  then have "\<exists>dst'. Encode 0x20AC [0, 0, 0] 0 = Inr (dst', 3) \<and> Decode dst' 3 = Inr (3, 0x20AC)"
    by simp
  with e have "Decode [0xE2, 0x82, 0xAC] 3 = Inr (3, 0x20AC)"
    by simp
  with h l e show ?thesis
    by blast
qed

section \<open>The code point iterator\<close>

text \<open>
  C4: iterating over the code units 0xD83D 0xDE00 yields exactly one code point, U+1F600;
  iterating over 0xD83D 0x0041 yields exactly two, U+D83D and then U+0041.
\<close>

theorem CodePointIterator_surrogates:
  "code_points (CodePointIterator_init [0xD83D, 0xDE00]) = Inr [0x1F600]
   \<and> code_points (CodePointIterator_init [0xD83D, 0x0041]) = Inr [0xD83D, 0x0041]"
  by (simp add: unicode_defs)

section \<open>Encoding a string\<close>

lemma put_splice:
  assumes "n < length xs"
  shows "put xs (int n) v = Inr (take n xs @ v # drop (Suc n) xs)"
  using assms by (simp add: put_def upd_conv_take_nth_drop)

lemma put_splice_next:
  assumes "n + length bs < length xs"
  shows "put (take n xs @ bs @ drop (n + length bs) xs) (int n + int (length bs)) v
     = Inr (take n xs @ (bs @ [v]) @ drop (n + length (bs @ [v])) xs)"
proof -
  let ?ys = "take n xs @ bs @ drop (n + length bs) xs"
  have l: "length ?ys = length xs"
    using assms by simp
  have "put ?ys (int (n + length bs)) v
      = Inr (take (n + length bs) ?ys @ v # drop (Suc (n + length bs)) ?ys)"
    using assms l by (intro put_splice) simp
  moreover have "take (n + length bs) ?ys = take n xs @ bs"
    using assms by simp
  moreover have "drop (Suc (n + length bs)) ?ys = drop (Suc (n + length bs)) xs"
    using assms by simp
  ultimately show ?thesis
    by simp
qed

lemma Encode_splice:
  fixes ch :: "32 word"
  assumes "ch \<le> 0x10FFFF" "n + length (encoded ch) \<le> length dst"
  shows "Encode ch dst (int n) =
           Inr (take n dst @ encoded ch @ drop (n + length (encoded ch)) dst,
                int (length (encoded ch)))"
    and "Length ch = Inr (int (length (encoded ch)))"
    and "0 < length (encoded ch)"
proof -
  note s = sle_small [OF assms(1)]
  note k = kMaxOneByteChar_def kMaxTwoByteChar_def kMaxThreeByteChar_def kMaxFourByteChar_def
  consider "ch \<le> 0x7F" | "\<not> ch \<le> 0x7F" "ch \<le> 0x7FF" | "\<not> ch \<le> 0x7FF" "ch \<le> 0xFFFF"
    | "\<not> ch \<le> 0xFFFF"
    by blast
  then have "Encode ch dst (int n) =
           Inr (take n dst @ encoded ch @ drop (n + length (encoded ch)) dst,
                int (length (encoded ch)))
      \<and> Length ch = Inr (int (length (encoded ch))) \<and> 0 < length (encoded ch)"
  proof cases
    case 1
    have e: "encoded ch = [ucast ch]"
      using 1 s by (simp add: encoded_def Encode_def k put_def)
    show ?thesis
      using 1 s assms(2) put_splice [of n dst]
      by (simp add: e Encode_def Length_def k)
  next
    case 2
    have e: "encoded ch = [ucast (0xC0 OR signed_drop_bit 6 ch), ucast (0x80 OR (ch AND kMask))]"
      using 2 s by (simp add: encoded_def Encode_def k put_def)
    show ?thesis
      using 2 s assms(2) put_splice [of n dst] put_splice_next [of n "[x]" dst for x]
      by (simp add: e Encode_def Length_def k)
  next
    case 3
    then have n1: "\<not> ch \<le> 0x7F"
      by (simp add: word_le_nat_alt)
    have e: "encoded ch = [ucast (0xE0 OR signed_drop_bit 12 ch),
        ucast (0x80 OR (signed_drop_bit 6 ch AND kMask)), ucast (0x80 OR (ch AND kMask))]"
      using 3 n1 s by (simp add: encoded_def Encode_def k put_def)
    show ?thesis
      using 3 n1 s assms(2) put_splice [of n dst] put_splice_next [of n "[x]" dst for x]
        put_splice_next [of n "[x, y]" dst for x y]
      by (simp add: e Encode_def Length_def k)
  next
    case 4
    then have n1: "\<not> ch \<le> 0x7F" "\<not> ch \<le> 0x7FF"
      by (simp_all add: word_le_nat_alt)
    have e: "encoded ch = [ucast (0xF0 OR signed_drop_bit 18 ch),
        ucast (0x80 OR (signed_drop_bit 12 ch AND kMask)),
        ucast (0x80 OR (signed_drop_bit 6 ch AND kMask)), ucast (0x80 OR (ch AND kMask))]"
      using 4 n1 s by (simp add: encoded_def Encode_def k put_def)
    show ?thesis
      using 4 n1 s assms(2) put_splice [of n dst] put_splice_next [of n "[x]" dst for x]
        put_splice_next [of n "[x, y]" dst for x y] put_splice_next [of n "[x, y, z]" dst for x y z]
      by (simp add: e Encode_def Length_def k)
  qed
  then show "Encode ch dst (int n) =
           Inr (take n dst @ encoded ch @ drop (n + length (encoded ch)) dst,
                int (length (encoded ch)))"
    and "Length ch = Inr (int (length (encoded ch)))"
    and "0 < length (encoded ch)"
    by blast+
qed

lemma encoded_length:
  fixes ch :: "32 word"
  assumes "ch \<le> 0x10FFFF"
  shows "Length ch = Inr (int (length (encoded ch)))" and "0 < length (encoded ch)"
proof -
  have "0 + length (encoded ch) \<le> length (encoded ch)"
    by simp
  from Encode_splice(2,3) [OF assms this] show "Length ch = Inr (int (length (encoded ch)))"
    and "0 < length (encoded ch)" .
qed

lemma unat_ucast_16_32: "unat (ucast (b :: 16 word) :: 32 word) = unat b"
proof -
  have "unat b < 2 ^ 32"
    using unsigned_less [of b, where 'a = nat] by simp
  then show ?thesis
    by (simp add: unsigned_ucast_eq take_bit_nat_eq_self)
qed

lemma code_unit_range: "(ucast (cu :: 16 word) :: 32 word) \<le> 0x10FFFF"
proof -
  have "unat cu < 2 ^ 16"
    using unsigned_less [of cu, where 'a = nat] by simp
  then show ?thesis
    by (simp add: word_le_nat_alt unat_ucast_16_32)
qed

lemma Utf16_Decode_range: "Utf16_Decode lead trail \<le> 0x10FFFF"
proof -
  have m: "(0x3FF :: 32 word) = mask 10"
    by (simp add: mask_eq_exp_minus_1)
  have a: "unat (lead AND 0x3FF) < 1024" "unat (trail AND 0x3FF) < 1024"
    unfolding m by (simp_all add: take_bit_eq_mask [symmetric] unat_fields)
  have "unat (push_bit 10 (lead AND 0x3FF)) = unat (lead AND 0x3FF) * 1024"
    using a(1) by (simp add: push_bit_eq_mult unat_word_ariths)
  then have "unat (0x10000 + push_bit 10 (lead AND 0x3FF) + (trail AND 0x3FF))
      = 65536 + unat (lead AND 0x3FF) * 1024 + unat (trail AND 0x3FF)"
    using a by (simp add: unat_word_ariths)
  then show ?thesis
    using a by (simp add: Utf16_Decode_def word_le_nat_alt)
qed

lemma Next_ok:
  assumes "- 1 \<le> it_index it" "it_end it = int (length (it_str it))"
  shows "\<exists>b it'. Next it = Inr (b, it') \<and> - 1 \<le> it_index it'
      \<and> it_end it' = int (length (it_str it')) \<and> (b \<longrightarrow> Current it' \<le> 0x10FFFF)"
proof (cases "it_index it < it_end it - Utf16_Length (it_ch it)")
  case False
  then have "Next it = Inr (False, it\<lparr>it_index := it_end it\<rparr>)"
    using assms(1) by (simp add: Next_def Let_def)
  then show ?thesis
    using assms(2) by auto
next
  case True
  define i where "i = it_index it + Utf16_Length (it_ch it)"
  have "Utf16_Length (it_ch it) = 1 \<or> Utf16_Length (it_ch it) = 2"
    by (simp add: Utf16_Length_def)
  then have i: "0 \<le> i" "i < int (length (it_str it))"
    using True assms by (auto simp: i_def)
  define cu where "cu = it_str it ! nat i"
  have g: "get_code_unit (it_str it) i = Inr cu"
    using i by (simp add: get_code_unit_def at_def cu_def)
  define it2 where "it2 = it\<lparr>it_index := i, it_ch := ucast cu\<rparr>"
  show ?thesis
  proof (cases "IsLeadSurrogate (ucast cu) \<and> i < it_end it - 1")
    case False
    then have "Next it = Inr (True, it2)"
      using True assms(1) g by (auto simp: Next_def Let_def i_def [symmetric] it2_def)
    then show ?thesis
      using i assms(2) by (auto simp: it2_def Current_def code_unit_range)
  next
    case lead: True
    define cu2 where "cu2 = it_str it ! nat (i + 1)"
    have g2: "get_code_unit (it_str it) (i + 1) = Inr cu2"
      using i lead assms(2) by (simp add: get_code_unit_def at_def cu2_def)
    have "Next it = Inr (True, if IsTrailSurrogate (ucast cu2)
        then it2\<lparr>it_ch := Utf16_Decode (ucast cu) (ucast cu2)\<rparr> else it2)"
      using True lead assms(1) g g2 by (simp add: Next_def Let_def i_def [symmetric] it2_def)
    then show ?thesis
      using i assms(2) by (auto simp: it2_def Current_def code_unit_range Utf16_Decode_range)
  qed
qed

lemma code_points_Nil:
  assumes "code_points it = Inr []"
  shows "\<exists>it'. Next it = Inr (False, it')"
  using assms
  by (subst (asm) code_points.simps) (auto simp del: code_points.simps split: sum.splits if_splits)

lemma code_points_Cons:
  assumes "code_points it = Inr (c # cs)"
  shows "\<exists>it'. Next it = Inr (True, it') \<and> c = Current it' \<and> code_points it' = Inr cs"
  using assms
  by (subst (asm) code_points.simps) (auto simp del: code_points.simps split: sum.splits if_splits)

lemma code_points_ok:
  "- 1 \<le> it_index it \<and> it_end it = int (length (it_str it)) \<longrightarrow>
     (\<exists>cps. code_points it = Inr cps \<and> (\<forall>c \<in> set cps. c \<le> 0x10FFFF))"
proof (induction it rule: code_points.induct)
  case (1 it)
  show ?case
  proof
    assume inv: "- 1 \<le> it_index it \<and> it_end it = int (length (it_str it))"
    then obtain b it' where n: "Next it = Inr (b, it')" "- 1 \<le> it_index it'"
        "it_end it' = int (length (it_str it'))" "b \<longrightarrow> Current it' \<le> 0x10FFFF"
      using Next_ok [of it] by blast
    show "\<exists>cps. code_points it = Inr cps \<and> (\<forall>c \<in> set cps. c \<le> 0x10FFFF)"
    proof (cases b)
      case True
      with "1.IH" [OF n(1) refl] n obtain cs where
          "code_points it' = Inr cs" "\<forall>c \<in> set cs. c \<le> 0x10FFFF"
        by blast
      with True n show ?thesis
        by (subst code_points.simps) simp
    next
      case False
      with n show ?thesis
        by (subst code_points.simps) simp
    qed
  qed
qed

lemma Encode_loop_fitting:
  assumes "code_points it = Inr cps" "\<forall>c \<in> set cps. c \<le> 0x10FFFF"
    and "int m \<le> len" "len \<le> int (length dst)"
  shows "Encode_loop it dst len (int m) =
           Inr (take m dst @ concat (map encoded (fitting cps (int m) len))
                  @ drop (m + length (concat (map encoded (fitting cps (int m) len)))) dst,
                int (m + length (concat (map encoded (fitting cps (int m) len)))))
         \<and> int (m + length (concat (map encoded (fitting cps (int m) len)))) \<le> len"
  using assms
proof (induction cps arbitrary: it dst m)
  case Nil
  then obtain it' where "Next it = Inr (False, it')"
    using code_points_Nil by blast
  then show ?case
    using Nil.prems by (subst Encode_loop.simps) simp
next
  case (Cons c cs)
  then obtain it' where n: "Next it = Inr (True, it')" "c = Current it'"
      "code_points it' = Inr cs"
    using code_points_Cons by blast
  have cur: "Current it' = c"
    using n(2) by simp
  have c: "c \<le> 0x10FFFF"
    using Cons.prems(2) by simp
  define k where "k = length (encoded c)"
  have l: "Length c = Inr (int k)" "0 < k"
    using encoded_length [OF c] by (simp_all add: k_def)
  show ?case
  proof (cases "int m + int k > len")
    case True
    then show ?thesis
      using n(1) cur l Cons.prems(3)
      by (subst Encode_loop.simps) (simp add: k_def [symmetric] del: Encode_loop.simps)
  next
    case False
    then have room: "m + length (encoded c) \<le> length dst"
      using Cons.prems(4) by (simp add: k_def)
    define dst1 where "dst1 = take m dst @ encoded c @ drop (m + k) dst"
    have e: "Encode c dst (int m) = Inr (dst1, int k)"
      using Encode_splice(1) [OF c room] by (simp add: dst1_def k_def)
    have len1: "length dst1 = length dst"
      using room by (simp add: dst1_def k_def)
    define W where "W = concat (map encoded (fitting cs (int (m + k)) len))"
    have ih: "Encode_loop it' dst1 len (int (m + k)) =
        Inr (take (m + k) dst1 @ W @ drop (m + k + length W) dst1, int (m + k + length W))
      \<and> int (m + k + length W) \<le> len"
      unfolding W_def
      using Cons.IH [of it' "m + k" dst1] n(3) Cons.prems(2,4) False len1
      by (simp del: code_points.simps Encode_loop.simps)
    have f: "fitting (c # cs) (int m) len = c # fitting cs (int (m + k)) len"
      using False by (simp add: k_def)
    have t: "take (m + k) dst1 = take m dst @ encoded c"
      using room by (simp add: dst1_def k_def)
    have d: "drop (m + k + length W) dst1 = drop (m + k + length W) dst"
      using room by (simp add: dst1_def k_def add_ac)
    have "Encode_loop it dst len (int m) = Encode_loop it' dst1 len (int (m + k))"
      using n(1) cur l e False
      by (subst Encode_loop.simps) (simp add: Let_def del: Encode_loop.simps)
    with ih have r: "Encode_loop it dst len (int m) =
        Inr ((take m dst @ encoded c) @ W @ drop (m + k + length W) dst, int (m + k + length W))"
      and b: "int (m + k + length W) \<le> len"
      by (simp_all add: t d del: Encode_loop.simps)
    have W0: "concat (map encoded (fitting (c # cs) (int m) len)) = encoded c @ W"
      unfolding f by (simp add: W_def)
    have "length (encoded c @ W) = k + length W"
      by (simp add: k_def)
    then show ?thesis
      unfolding W0 using r b by (simp add: add.assoc del: Encode_loop.simps)
  qed
qed

text \<open>
  C10: for every source string, destination buffer and capacity \<open>len\<close> with
  \<open>0 \<le> len\<close> that the buffer really has, \<open>Utf8::Encode(src, dst, len)\<close> returns without a
  fault. The bytes it has written are the whole encodings of the code points of \<open>src\<close> up
  to the first one that would not fit below \<open>len\<close>; they stand at the start of the buffer,
  and every byte behind them is as it was. The value returned is the number of these bytes
  and is at most \<open>len\<close>. A store at an index of \<open>len\<close> or more would be the fault
  \<open>OutOfBounds\<close> when the buffer has exactly \<open>len\<close> bytes.
\<close>

theorem Encode_str_within_capacity:
  "0 \<le> len \<and> len \<le> int (length dst) \<longrightarrow>
     (\<exists>cps. code_points (CodePointIterator_init src) = Inr cps
        \<and> Encode_str src dst len =
            Inr (concat (map encoded (fitting cps 0 len))
                   @ drop (length (concat (map encoded (fitting cps 0 len)))) dst,
                 int (length (concat (map encoded (fitting cps 0 len)))))
        \<and> int (length (concat (map encoded (fitting cps 0 len)))) \<le> len)"
proof
  assume h: "0 \<le> len \<and> len \<le> int (length dst)"
  have "- 1 \<le> it_index (CodePointIterator_init src)
      \<and> it_end (CodePointIterator_init src) = int (length (it_str (CodePointIterator_init src)))"
    by (simp add: CodePointIterator_init_def)
  with code_points_ok obtain cps where
      cps: "code_points (CodePointIterator_init src) = Inr cps" "\<forall>c \<in> set cps. c \<le> 0x10FFFF"
    by blast
  from Encode_loop_fitting [OF cps, of 0 len dst] h
  show "\<exists>cps. code_points (CodePointIterator_init src) = Inr cps
        \<and> Encode_str src dst len =
            Inr (concat (map encoded (fitting cps 0 len))
                   @ drop (length (concat (map encoded (fitting cps 0 len)))) dst,
                 int (length (concat (map encoded (fitting cps 0 len)))))
        \<and> int (length (concat (map encoded (fitting cps 0 len)))) \<le> len"
    using cps(1) by (simp add: Encode_str_def)
qed

theorem Encode_str_within_capacity_witness:
  "(0 :: int) \<le> 7 \<and> (7 :: int) \<le> int (length [0, 0, 0, 0, 0, 0, 0, 0 :: 8 word])
   \<and> code_points (CodePointIterator_init [0xD83D, 0xDE00, 0x41, 0x20AC])
       = Inr [0x1F600, 0x41, 0x20AC]
   \<and> fitting [0x1F600, 0x41, 0x20AC] 0 7 = [0x1F600, 0x41]
   \<and> Encode_str [0xD83D, 0xDE00, 0x41, 0x20AC] [0, 0, 0, 0, 0, 0, 0, 0] 7
       = Inr ([0xF0, 0x9F, 0x98, 0x80, 0x41, 0, 0, 0], 5)"
proof -
  have h: "(0 :: int) \<le> 7 \<and> (7 :: int) \<le> int (length [0, 0, 0, 0, 0, 0, 0, 0 :: 8 word])"
    by simp
  have cp: "code_points (CodePointIterator_init [0xD83D, 0xDE00, 0x41, 0x20AC])
      = Inr [0x1F600, 0x41, 0x20AC]"
    by (simp add: unicode_defs)
  have en: "encoded 0x1F600 = [0xF0, 0x9F, 0x98, 0x80]" "encoded 0x41 = [0x41]"
    "encoded 0x20AC = [0xE2, 0x82, 0xAC]"
    by (simp_all add: encoded_def Encode_def unicode_defs kMask_def)
  have f: "fitting [0x1F600, 0x41, 0x20AC] 0 7 = [0x1F600, 0x41]"
    by (simp add: en)
  from Encode_str_within_capacity [of 7 "[0, 0, 0, 0, 0, 0, 0, 0]" "[0xD83D, 0xDE00, 0x41, 0x20AC]"]
    h cp f
  have "Encode_str [0xD83D, 0xDE00, 0x41, 0x20AC] [0, 0, 0, 0, 0, 0, 0, 0] 7
       = Inr ([0xF0, 0x9F, 0x98, 0x80, 0x41, 0, 0, 0], 5)"
    by (simp add: en)
  with h cp f show ?thesis
    by blast
qed

section \<open>Decoding a buffer to UTF-16\<close>

text \<open>
  C2 at the input U+1F600 followed by \<open>A\<close>, with a destination capacity \<open>len\<close> of one code
  unit. The capacity is exhausted by the first code point, which needs two code units,
  and the byte 0x41 is never consumed. With room behind the capacity, the function stores
  the trail surrogate at index 1 and returns true; with a buffer of exactly one code
  unit, the same store is out of bounds.
\<close>

theorem DecodeToUTF16_overflow_undetected:
  "DecodeToUTF16 [0xF0, 0x9F, 0x98, 0x80, 0x41] 5 [0, 0, 0] 1 = Inr (True, [0xD83D, 0xDE00, 0])
   \<and> DecodeToUTF16 [0xF0, 0x9F, 0x98, 0x80, 0x41] 5 [0] 1 = Inl OutOfBounds"
  by (simp add: DecodeToUTF16_def Decode_def unicode_defs)

section \<open>Walking the frames of a stack\<close>

lemmas frame_defs = FirstFrame_def Previous_def IsLastFrame_def PreviousFramePointer_def
  FirstLocalIndex_def Pointer_def deref_def NULL_def at_def Let_def
  stack_bottom_null_def stack_outermost_null_def

lemma Previous_times_Suc_end:
  "Previous_times (Suc n) f = (case Previous_times n f of Inl e \<Rightarrow> Inl e | Inr g \<Rightarrow> Previous g)"
proof (induction n arbitrary: f)
  case 0
  show ?case
    by (simp split: sum.splits)
next
  case (Suc n)
  show ?case
  proof (cases "Previous f")
    case (Inl e)
    then show ?thesis
      by simp
  next
    case (Inr g)
    have "Previous_times (Suc (Suc n)) f = Previous_times (Suc n) g"
      using Inr by simp
    also have "\<dots> = (case Previous_times n g of Inl e \<Rightarrow> Inl e | Inr h \<Rightarrow> Previous h)"
      by (rule Suc.IH)
    also have "Previous_times n g = Previous_times (Suc n) f"
      using Inr by simp
    finally show ?thesis .
  qed
qed

lemma chain_Suc_elim:
  assumes "chain stack p (Suc n)"
  obtains q where "deref stack p = Inr q" "q \<noteq> NULL" "chain stack q n"
  using assms by (auto split: sum.splits)

lemma chain_deref:
  assumes "chain stack p n"
  obtains v where "deref stack p = Inr v" "v = NULL \<longleftrightarrow> n = 0"
  using assms by (cases n) (auto split: sum.splits)

lemma chain_walk:
  assumes "chain (fr_stack f) (fr_frame_pointer f) (Suc n)"
  shows "(\<exists>g. Previous_times n f = Inr g \<and> fr_stack g = fr_stack f \<and> IsLastFrame g = Inr True)
       \<and> (\<forall>k<n. \<exists>g. Previous_times k f = Inr g \<and> IsLastFrame g = Inr False)"
  using assms
proof (induction n arbitrary: f)
  case 0
  then show ?case
    by (auto simp: IsLastFrame_def PreviousFramePointer_def split: sum.splits)
next
  case (Suc n)
  from Suc.prems obtain q where q: "deref (fr_stack f) (fr_frame_pointer f) = Inr q"
      "q \<noteq> NULL" "chain (fr_stack f) q (Suc n)"
    by (rule chain_Suc_elim)
  from q(3) obtain v where v: "deref (fr_stack f) q = Inr v" "v \<noteq> NULL"
    by (rule chain_deref) auto
  define g where "g = \<lparr>fr_stack = fr_stack f, fr_frame_pointer = q,
                          fr_size = fr_frame_pointer f - q\<rparr>"
  have prev: "Previous f = Inr g"
    using q v by (simp add: Previous_def PreviousFramePointer_def g_def)
  have last: "IsLastFrame f = Inr False"
    using q v by (simp add: IsLastFrame_def PreviousFramePointer_def)
  have gs: "fr_stack g = fr_stack f"
    by (simp add: g_def)
  have "chain (fr_stack g) (fr_frame_pointer g) (Suc n)"
    using q(3) by (simp add: g_def)
  from Suc.IH [OF this]
  have ih1: "\<exists>h. Previous_times n g = Inr h \<and> fr_stack h = fr_stack g \<and> IsLastFrame h = Inr True"
    and ih2: "\<forall>k<n. \<exists>h. Previous_times k g = Inr h \<and> IsLastFrame h = Inr False"
    by blast+
  have "\<exists>h. Previous_times k f = Inr h \<and> IsLastFrame h = Inr False" if "k < Suc n" for k
  proof (cases k)
    case 0
    then show ?thesis using last by simp
  next
    case (Suc j)
    then show ?thesis using that ih2 prev by simp
  qed
  then show ?case
    using ih1 prev gs by simp
qed

lemma chain_walk_end:
  assumes "chain (fr_stack f) (fr_frame_pointer f) (Suc n)"
  shows "Previous_times (Suc n) f = Inl Unreachable"
proof -
  from chain_walk [OF assms] obtain g where
      g: "Previous_times n f = Inr g" "IsLastFrame g = Inr True"
    by blast
  from g(2) have "Previous g = Inl Unreachable"
    by (auto simp: IsLastFrame_def Previous_def split: sum.splits)
  with g(1) show ?thesis
    by (simp only: Previous_times_Suc_end sum.case)
qed

text \<open>
  C7, as stated, fails on a stack laid out as the data model of the spec says, with the
  null sentinel in the own slot of the outermost call. In \<open>stack_outermost_null\<close> there are
  N = 2 active calls, and the chain of saved pointers from the base frame that
  \<open>Frame::FirstFrame\<close> returns ends at the null sentinel after 2 links. \<open>IsLastFrame()\<close> is
  true after one application of \<open>Previous()\<close> already, at the frame of the more recent
  call, and the second application is the fatal \<open>UNREACHABLE()\<close>: no frame is reached by
  exactly 2 applications.
\<close>

theorem Frame_walk_counterexample:
  "FirstFrame stack_outermost_null
     = Inr \<lparr>fr_stack = stack_outermost_null, fr_frame_pointer = 1008, fr_size = 2\<rparr>
   \<and> chain stack_outermost_null 1008 2
   \<and> Previous_times 1 \<lparr>fr_stack = stack_outermost_null, fr_frame_pointer = 1008, fr_size = 2\<rparr>
       = Inr \<lparr>fr_stack = stack_outermost_null, fr_frame_pointer = 1005, fr_size = 3\<rparr>
   \<and> IsLastFrame \<lparr>fr_stack = stack_outermost_null, fr_frame_pointer = 1005, fr_size = 3\<rparr>
       = Inr True
   \<and> Previous_times 2 \<lparr>fr_stack = stack_outermost_null, fr_frame_pointer = 1008, fr_size = 2\<rparr>
       = Inl Unreachable"
  by (simp add: frame_defs numeral_2_eq_2)

text \<open>
  C7, amended: for every stack whose saved previous-frame-pointer slots form an acyclic
  chain with N active calls, N at least 1, terminating at the null sentinel (the top slot
  holds the frame pointer of the base frame, and the saved pointers followed from there
  reach, after N links, the slot that holds the null sentinel), \<open>Frame::FirstFrame\<close>
  returns the base frame, anchored at the address in the top slot and with the distance
  to the top slot as its size, and starting from it exactly N - 1 applications of
  \<open>Previous()\<close> reach a frame for which \<open>IsLastFrame()\<close> is true, \<open>IsLastFrame()\<close> is false at
  every earlier frame of the walk, and the N-th application is the fatal
  \<open>UNREACHABLE()\<close>: \<open>IsLastFrame()\<close> and \<open>Previous()\<close> test the slot at the previous frame
  pointer, not the own slot of the frame.
\<close>

theorem Frame_walk_reaches_last:
  "deref stack (Pointer stack (top stack)) = Inr fp0 \<and> chain stack fp0 n \<and> 0 < n \<longrightarrow>
     FirstFrame stack
       = Inr \<lparr>fr_stack = stack, fr_frame_pointer = fp0,
               fr_size = Pointer stack (top stack) - fp0\<rparr>
     \<and> (\<exists>f. Previous_times (n - 1)
                \<lparr>fr_stack = stack, fr_frame_pointer = fp0,
                  fr_size = Pointer stack (top stack) - fp0\<rparr> = Inr f
              \<and> fr_stack f = stack \<and> IsLastFrame f = Inr True)
     \<and> (\<forall>k<n - 1. \<exists>g. Previous_times k
                \<lparr>fr_stack = stack, fr_frame_pointer = fp0,
                  fr_size = Pointer stack (top stack) - fp0\<rparr> = Inr g
              \<and> IsLastFrame g = Inr False)
     \<and> Previous_times n
           \<lparr>fr_stack = stack, fr_frame_pointer = fp0,
             fr_size = Pointer stack (top stack) - fp0\<rparr> = Inl Unreachable"
proof
  assume h: "deref stack (Pointer stack (top stack)) = Inr fp0 \<and> chain stack fp0 n \<and> 0 < n"
  define f0 where "f0 = \<lparr>fr_stack = stack, fr_frame_pointer = fp0,
      fr_size = Pointer stack (top stack) - fp0\<rparr>"
  from h obtain m where n: "n = Suc m"
    by (cases n) auto
  have first: "FirstFrame stack = Inr f0"
    using h by (simp add: FirstFrame_def Let_def f0_def)
  have c: "chain (fr_stack f0) (fr_frame_pointer f0) (Suc m)"
    using h n by (simp add: f0_def del: chain.simps)
  have s: "fr_stack f0 = stack"
    by (simp add: f0_def)
  from chain_walk [OF c] chain_walk_end [OF c] first
  have "FirstFrame stack = Inr f0
     \<and> (\<exists>f. Previous_times (n - 1) f0 = Inr f \<and> fr_stack f = stack \<and> IsLastFrame f = Inr True)
     \<and> (\<forall>k<n - 1. \<exists>g. Previous_times k f0 = Inr g \<and> IsLastFrame g = Inr False)
     \<and> Previous_times n f0 = Inl Unreachable"
    unfolding n s by (simp del: Previous_times.simps)
  then show "FirstFrame stack
       = Inr \<lparr>fr_stack = stack, fr_frame_pointer = fp0,
               fr_size = Pointer stack (top stack) - fp0\<rparr>
     \<and> (\<exists>f. Previous_times (n - 1)
                \<lparr>fr_stack = stack, fr_frame_pointer = fp0,
                  fr_size = Pointer stack (top stack) - fp0\<rparr> = Inr f
              \<and> fr_stack f = stack \<and> IsLastFrame f = Inr True)
     \<and> (\<forall>k<n - 1. \<exists>g. Previous_times k
                \<lparr>fr_stack = stack, fr_frame_pointer = fp0,
                  fr_size = Pointer stack (top stack) - fp0\<rparr> = Inr g
              \<and> IsLastFrame g = Inr False)
     \<and> Previous_times n
           \<lparr>fr_stack = stack, fr_frame_pointer = fp0,
             fr_size = Pointer stack (top stack) - fp0\<rparr> = Inl Unreachable"
    unfolding f0_def .
qed

theorem Frame_walk_reaches_last_witness:
  "deref stack_bottom_null (Pointer stack_bottom_null (top stack_bottom_null)) = Inr 1010
   \<and> chain stack_bottom_null 1010 3 \<and> (0 :: nat) < 3
   \<and> FirstFrame stack_bottom_null
       = Inr \<lparr>fr_stack = stack_bottom_null, fr_frame_pointer = 1010, fr_size = 2\<rparr>
   \<and> (\<exists>f. Previous_times 2 \<lparr>fr_stack = stack_bottom_null, fr_frame_pointer = 1010, fr_size = 2\<rparr>
            = Inr f \<and> IsLastFrame f = Inr True)
   \<and> Previous_times 3 \<lparr>fr_stack = stack_bottom_null, fr_frame_pointer = 1010, fr_size = 2\<rparr>
       = Inl Unreachable"
proof -
  have h: "deref stack_bottom_null (Pointer stack_bottom_null (top stack_bottom_null)) = Inr 1010
     \<and> chain stack_bottom_null 1010 3 \<and> (0 :: nat) < 3"
    by (simp add: frame_defs numeral_3_eq_3)
  have p: "Pointer stack_bottom_null (top stack_bottom_null) - 1010 = 2" "(3 :: nat) - 1 = 2"
    by (simp_all add: frame_defs)
  from Frame_walk_reaches_last [of stack_bottom_null 1010 3] h
  have "FirstFrame stack_bottom_null
       = Inr \<lparr>fr_stack = stack_bottom_null, fr_frame_pointer = 1010, fr_size = 2\<rparr>
     \<and> (\<exists>f. Previous_times 2 \<lparr>fr_stack = stack_bottom_null, fr_frame_pointer = 1010, fr_size = 2\<rparr>
            = Inr f \<and> IsLastFrame f = Inr True)
     \<and> Previous_times 3 \<lparr>fr_stack = stack_bottom_null, fr_frame_pointer = 1010, fr_size = 2\<rparr>
       = Inl Unreachable"
    unfolding p by blast
  with h show ?thesis
    by blast
qed

section \<open>One step of the walk\<close>

text \<open>
  C8, as stated, fails in its second half: a frame whose previous-frame-pointer slot is
  non-null need not have a previous frame. In \<open>stack_bottom_null\<close> the frame anchored at
  slot 3 has the saved pointer 1000, which is not null, but the slot at 1000 holds the
  null sentinel: \<open>Previous()\<close> runs into \<open>UNREACHABLE()\<close> and returns no frame.
\<close>

theorem Previous_counterexample:
  "PreviousFramePointer \<lparr>fr_stack = stack_bottom_null, fr_frame_pointer = 1003, fr_size = 4\<rparr>
     = Inr 1000
   \<and> 1000 \<noteq> NULL
   \<and> Previous \<lparr>fr_stack = stack_bottom_null, fr_frame_pointer = 1003, fr_size = 4\<rparr>
       = Inl Unreachable"
  by (simp add: frame_defs)

text \<open>
  C8, amended: calling \<open>Previous()\<close> on a frame for which \<open>IsLastFrame()\<close> is true, that is,
  a frame for which the slot at its previous frame pointer holds the null sentinel, is the
  fatal \<open>UNREACHABLE()\<close> and returns no frame. For every frame for which \<open>IsLastFrame()\<close> is
  false, \<open>Previous()\<close> returns a frame on the same stack, anchored at the previous frame
  pointer, whose size is the slot distance between the current and the new frame
  pointer. A frame whose own slot holds the null sentinel is no valid receiver: both
  functions read through the null pointer, and no frame is returned.
\<close>

theorem Previous_frame:
  "(IsLastFrame f = Inr True \<longrightarrow> Previous f = Inl Unreachable)
   \<and> (IsLastFrame f = Inr False \<longrightarrow>
        (\<exists>p. PreviousFramePointer f = Inr p \<and> p \<noteq> NULL
           \<and> Previous f = Inr \<lparr>fr_stack = fr_stack f, fr_frame_pointer = p,
                                 fr_size = fr_frame_pointer f - p\<rparr>))
   \<and> (PreviousFramePointer f = Inr NULL \<longrightarrow>
        Previous f = Inl NullDereference \<and> IsLastFrame f = Inl NullDereference)"
  by (auto simp: IsLastFrame_def Previous_def deref_def split: sum.splits if_splits)

theorem Previous_frame_witness:
  "IsLastFrame \<lparr>fr_stack = stack_bottom_null, fr_frame_pointer = 1003, fr_size = 4\<rparr> = Inr True
   \<and> Previous \<lparr>fr_stack = stack_bottom_null, fr_frame_pointer = 1003, fr_size = 4\<rparr>
       = Inl Unreachable
   \<and> IsLastFrame \<lparr>fr_stack = stack_bottom_null, fr_frame_pointer = 1007, fr_size = 3\<rparr>
       = Inr False
   \<and> Previous \<lparr>fr_stack = stack_bottom_null, fr_frame_pointer = 1007, fr_size = 3\<rparr>
       = Inr \<lparr>fr_stack = stack_bottom_null, fr_frame_pointer = 1003, fr_size = 4\<rparr>
   \<and> PreviousFramePointer \<lparr>fr_stack = stack_bottom_null, fr_frame_pointer = 1000, fr_size = 3\<rparr>
       = Inr NULL
   \<and> Previous \<lparr>fr_stack = stack_bottom_null, fr_frame_pointer = 1000, fr_size = 3\<rparr>
       = Inl NullDereference"
proof -
  have a: "IsLastFrame \<lparr>fr_stack = stack_bottom_null, fr_frame_pointer = 1003, fr_size = 4\<rparr>
      = Inr True"
    by (simp add: frame_defs)
  have b: "IsLastFrame \<lparr>fr_stack = stack_bottom_null, fr_frame_pointer = 1007, fr_size = 3\<rparr>
      = Inr False"
    by (simp add: frame_defs)
  have c: "PreviousFramePointer
      \<lparr>fr_stack = stack_bottom_null, fr_frame_pointer = 1000, fr_size = 3\<rparr> = Inr NULL"
    by (simp add: frame_defs)
  have d: "PreviousFramePointer
      \<lparr>fr_stack = stack_bottom_null, fr_frame_pointer = 1007, fr_size = 3\<rparr> = Inr 1003"
    by (simp add: frame_defs)
  from Previous_frame [of "\<lparr>fr_stack = stack_bottom_null, fr_frame_pointer = 1003, fr_size = 4\<rparr>"]
    Previous_frame [of "\<lparr>fr_stack = stack_bottom_null, fr_frame_pointer = 1007, fr_size = 3\<rparr>"]
    Previous_frame [of "\<lparr>fr_stack = stack_bottom_null, fr_frame_pointer = 1000, fr_size = 3\<rparr>"]
    a b c d
  show ?thesis
    by auto
qed

section \<open>Where the locals of a frame begin\<close>

lemma push_result:
  assumes "push stack v = Inr s"
  shows "base s = base stack" and "top s = top stack + 1"
    and "at (slots s) (top s) = Inr v"
    and "\<And>i. i \<le> top stack \<Longrightarrow> at (slots s) i = at (slots stack) i"
  using assms by (auto simp: push_def put_def at_def split: if_splits)

lemma push_all_result:
  assumes "push_all stack vs = Inr s"
  shows "base s = base stack \<and> top s = top stack + int (length vs)
       \<and> (\<forall>i. i \<le> top stack \<longrightarrow> at (slots s) i = at (slots stack) i)"
  using assms
proof (induction vs arbitrary: stack)
  case Nil
  then show ?case
    by simp
next
  case (Cons v vs)
  then obtain s1 where s1: "push stack v = Inr s1" "push_all s1 vs = Inr s"
    by (auto split: sum.splits)
  from Cons.IH [OF s1(2)] push_result [OF s1(1)] show ?case
    by auto
qed

lemma interpreter_call_result:
  assumes "interpreter_call stack fp arguments return_bcp = Inr (s, fp')"
  shows "base s = base stack" and "top s = top stack + int (length arguments) + 2"
    and "fp' = Pointer s (top s)" and "at (slots s) (top s) = Inr fp"
proof -
  from assms obtain s1 s2 where p: "push_all stack arguments = Inr s1"
      "push s1 return_bcp = Inr s2" "push s2 fp = Inr s" "fp' = Pointer s (top s)"
    by (auto simp: interpreter_call_def split: sum.splits)
  from push_all_result [OF p(1)] push_result(1,2) [OF p(2)] push_result(1,2,3) [OF p(3)] p(4)
  show "base s = base stack" and "top s = top stack + int (length arguments) + 2"
    and "fp' = Pointer s (top s)" and "at (slots s) (top s) = Inr fp"
    by auto
qed

text \<open>
  C9, as stated, fails: a frame with a non-null previous frame pointer and a positive
  size need not have a previous frame at all. The frame of \<open>stack_bottom_null\<close> anchored
  at slot 3, of size 4, has the previous frame pointer 1000, which is not null, and
  \<open>Previous()\<close> on it is the fatal \<open>UNREACHABLE()\<close>, because the slot at 1000 holds the null
  sentinel: there is no \<open>FirstLocalIndex()\<close> of a previous frame to compare with.
\<close>

theorem FirstLocalIndex_counterexample:
  "PreviousFramePointer \<lparr>fr_stack = stack_bottom_null, fr_frame_pointer = 1003, fr_size = 4\<rparr>
     = Inr 1000
   \<and> 1000 \<noteq> NULL
   \<and> 0 < fr_size \<lparr>fr_stack = stack_bottom_null, fr_frame_pointer = 1003, fr_size = 4\<rparr>
   \<and> Previous \<lparr>fr_stack = stack_bottom_null, fr_frame_pointer = 1003, fr_size = 4\<rparr>
       = Inl Unreachable"
  by (simp add: frame_defs)

text \<open>
  C9, amended: for every pair of frames where frame \<open>B\<close> was called from frame \<open>A\<close> and
  \<open>Previous()\<close> on \<open>B\<close> returns a frame, the frame returned is anchored at the frame pointer
  of \<open>A\<close> and \<open>FirstLocalIndex()\<close> of \<open>B\<close> is strictly greater than its \<open>FirstLocalIndex()\<close>.
  Here \<open>A\<close> is running with a frame pointer that is not above the top slot, the call
  pushes the arguments, the return address and the frame pointer of \<open>A\<close> and anchors \<open>B\<close>
  at the slot of the pushed pointer, and \<open>B\<close> may have pushed any locals since; the size
  recorded in \<open>B\<close> plays no part.
\<close>

theorem FirstLocalIndex_call:
  "interpreter_call stack fp_A arguments return_bcp = Inr (stack1, fp_B)
   \<and> fp_A \<le> Pointer stack (top stack)
   \<and> push_all stack1 locals = Inr stack2
   \<and> fr_stack B = stack2 \<and> fr_frame_pointer B = fp_B
   \<and> Previous B = Inr A \<longrightarrow>
     fr_frame_pointer A = fp_A \<and> FirstLocalIndex A < FirstLocalIndex B"
proof
  assume h: "interpreter_call stack fp_A arguments return_bcp = Inr (stack1, fp_B)
   \<and> fp_A \<le> Pointer stack (top stack)
   \<and> push_all stack1 locals = Inr stack2
   \<and> fr_stack B = stack2 \<and> fr_frame_pointer B = fp_B
   \<and> Previous B = Inr A"
  then have c: "interpreter_call stack fp_A arguments return_bcp = Inr (stack1, fp_B)"
    and l: "push_all stack1 locals = Inr stack2"
    by blast+
  note r = interpreter_call_result [OF c]
  from push_all_result [OF l] have b2: "base stack2 = base stack1"
    and keep: "at (slots stack2) (top stack1) = at (slots stack1) (top stack1)"
    by auto
  have fpB: "fp_B = base stack + (top stack + int (length arguments) + 2)"
    using r by (simp add: Pointer_def)
  from h obtain p where p: "PreviousFramePointer B = Inr p" "fr_frame_pointer A = p"
      "fr_stack A = fr_stack B"
    by (auto simp: Previous_def split: sum.splits if_splits)
  have "PreviousFramePointer B = Inr fp_A"
  proof (cases "fp_B = NULL")
    case True
    with h p(1) show ?thesis
      by (simp add: PreviousFramePointer_def deref_def)
  next
    case False
    have "fp_B - base stack2 = top stack1"
      using r b2 by (simp add: Pointer_def)
    with False h keep r(4) show ?thesis
      by (simp add: PreviousFramePointer_def deref_def)
  qed
  with p have a: "fr_frame_pointer A = fp_A"
    by simp
  have "FirstLocalIndex A < FirstLocalIndex B"
    using h a p(3) fpB b2 r(1) by (simp add: FirstLocalIndex_def Pointer_def)
  with a show "fr_frame_pointer A = fp_A \<and> FirstLocalIndex A < FirstLocalIndex B"
    by simp
qed

theorem FirstLocalIndex_call_witness:
  "interpreter_call stack_with_room 1003 [5, 6] 92
     = Inr (\<lparr>base = 1000, slots = [0, 7, 91, 1000, 0, 42, 5, 6, 92, 1003, 0, 0], top = 9\<rparr>, 1009)
   \<and> (1003 :: int) \<le> Pointer stack_with_room (top stack_with_room)
   \<and> push_all \<lparr>base = 1000, slots = [0, 7, 91, 1000, 0, 42, 5, 6, 92, 1003, 0, 0], top = 9\<rparr> [0, 8]
       = Inr \<lparr>base = 1000, slots = [0, 7, 91, 1000, 0, 42, 5, 6, 92, 1003, 0, 8], top = 11\<rparr>
   \<and> Previous
        \<lparr>fr_stack = \<lparr>base = 1000, slots = [0, 7, 91, 1000, 0, 42, 5, 6, 92, 1003, 0, 8], top = 11\<rparr>,
          fr_frame_pointer = 1009, fr_size = 3\<rparr>
       = Inr \<lparr>fr_stack = \<lparr>base = 1000, slots = [0, 7, 91, 1000, 0, 42, 5, 6, 92, 1003, 0, 8],
                             top = 11\<rparr>,
               fr_frame_pointer = 1003, fr_size = 6\<rparr>
   \<and> FirstLocalIndex
        \<lparr>fr_stack = \<lparr>base = 1000, slots = [0, 7, 91, 1000, 0, 42, 5, 6, 92, 1003, 0, 8], top = 11\<rparr>,
          fr_frame_pointer = 1003, fr_size = 6\<rparr>
       < FirstLocalIndex
          \<lparr>fr_stack = \<lparr>base = 1000, slots = [0, 7, 91, 1000, 0, 42, 5, 6, 92, 1003, 0, 8], top = 11\<rparr>,
            fr_frame_pointer = 1009, fr_size = 3\<rparr>"
proof -
  define s1 :: Stack where
    "s1 = \<lparr>base = 1000, slots = [0, 7, 91, 1000, 0, 42, 5, 6, 92, 1003, 0, 0], top = 9\<rparr>"
  define s2 :: Stack where
    "s2 = \<lparr>base = 1000, slots = [0, 7, 91, 1000, 0, 42, 5, 6, 92, 1003, 0, 8], top = 11\<rparr>"
  define B where "B = \<lparr>fr_stack = s2, fr_frame_pointer = 1009, fr_size = 3\<rparr>"
  define A where "A = \<lparr>fr_stack = s2, fr_frame_pointer = 1003, fr_size = 6\<rparr>"
  have c: "interpreter_call stack_with_room 1003 [5, 6] 92 = Inr (s1, 1009)"
    by (simp add: interpreter_call_def push_def put_def stack_with_room_def Pointer_def s1_def)
  have t: "(1003 :: int) \<le> Pointer stack_with_room (top stack_with_room)"
    by (simp add: stack_with_room_def Pointer_def)
  have l: "push_all s1 [0, 8] = Inr s2"
    by (simp add: push_def put_def s1_def s2_def)
  have p: "Previous B = Inr A"
    by (simp add: B_def A_def s2_def frame_defs)
  have h: "interpreter_call stack_with_room 1003 [5, 6] 92 = Inr (s1, 1009)
     \<and> 1003 \<le> Pointer stack_with_room (top stack_with_room)
     \<and> push_all s1 [0, 8] = Inr s2
     \<and> fr_stack B = s2 \<and> fr_frame_pointer B = 1009
     \<and> Previous B = Inr A"
    using c t l p by (simp add: B_def)
  from FirstLocalIndex_call [of stack_with_room 1003 "[5, 6]" 92 s1 1009 "[0, 8]" s2 B A] h
  have "FirstLocalIndex A < FirstLocalIndex B"
    by blast
  with c t l p show ?thesis
    unfolding s1_def s2_def A_def B_def by blast
qed

end
